theory Spec2Isabelle
  imports Main "HOL-Library.Multiset"
begin

section \<open>Strings, bytes and Python errors\<close>

text \<open>
  The program is \<^verbatim>\<open>extract_html.py\<close>: it reads a zip archive exported by Google Docs,
  parses the HTML entry with BeautifulSoup, rewrites the tree and splits it into pages.
  Python strings are modelled as \<^typ>\<open>string\<close>, the bytes of an archive entry as a list
  of characters (a HOL character is one byte), and every exception the modelled code can
  raise as a value of \<open>py_error\<close>. The value \<open>OutOfFuel\<close> is no exception: the loops
  over the links of the parsed document are not bounded by the data, so their model counts
  its steps down from a given number and answers \<open>OutOfFuel\<close> when that is used up.
\<close>

type_synonym bytes = "char list"

datatype py_error = KeyError | AttributeError | ValueError | OutOfFuel

text \<open>\<^verbatim>\<open>str.upper\<close> on the ASCII letters; every other character is left as it is.\<close>

definition upper_char :: "char \<Rightarrow> char" where
  "upper_char c =
     (case map_of (zip ''abcdefghijklmnopqrstuvwxyz'' ''ABCDEFGHIJKLMNOPQRSTUVWXYZ'') c of
        Some u \<Rightarrow> u
      | None \<Rightarrow> c)"

definition upper :: "string \<Rightarrow> string" where
  "upper s = map upper_char s"

text \<open>\<^verbatim>\<open>s.endswith(suffix)\<close>.\<close>

definition endswith :: "string \<Rightarrow> string \<Rightarrow> bool" where
  "endswith s suffix =
     (length suffix \<le> length s \<and> drop (length s - length suffix) s = suffix)"

text \<open>\<^verbatim>\<open>sep.join(xs)\<close>.\<close>

fun join :: "string \<Rightarrow> string list \<Rightarrow> string" where
  "join sep [] = []"
| "join sep [x] = x"
| "join sep (x # y # ys) = x @ sep @ join sep (y # ys)"

section \<open>The archive reader\<close>

text \<open>
  An opened \<^verbatim>\<open>zipfile.ZipFile\<close> is the ordered list of its entries, each a name and its
  bytes. \<^verbatim>\<open>namelist()\<close> gives the names in archive order. \<^verbatim>\<open>read(name)\<close> looks the
  name up in the name table of the archive, in which a later entry of the same name has
  replaced an earlier one, and raises \<^verbatim>\<open>KeyError\<close> for a name that is not there.
\<close>

type_synonym archive = "(string \<times> bytes) list"

definition namelist :: "archive \<Rightarrow> string list" where
  "namelist zf = map fst zf"

definition zf_read :: "archive \<Rightarrow> string \<Rightarrow> py_error + bytes" where
  "zf_read zf nm =
     (case filter (\<lambda>e. fst e = nm) zf of
        [] \<Rightarrow> Inl KeyError
      | e # es \<Rightarrow> Inr (snd (last (e # es))))"

text \<open>
  The loop of \<^verbatim>\<open>extract_html\<close>: \<^verbatim>\<open>html_file_name\<close> starts as \<^verbatim>\<open>None\<close> and is
  overwritten by every name that matches; the loop has no \<^verbatim>\<open>break\<close>.
\<close>

fun html_name_loop :: "string option \<Rightarrow> string list \<Rightarrow> string option" where
  "html_name_loop html_file_name [] = html_file_name"
| "html_name_loop html_file_name (f # files) =
     (if endswith (upper f) ''.HTML'' then html_name_loop (Some f) files
      else html_name_loop html_file_name files)"

text \<open>
  \<^verbatim>\<open>extract_html\<close> returns the bytes read, or Python's \<^verbatim>\<open>None\<close> (here \<open>None\<close>)
  when no name matched.
\<close>

definition extract_html :: "archive \<Rightarrow> py_error + bytes option" where
  "extract_html zf =
     (case html_name_loop None (namelist zf) of
        Some html_file_name \<Rightarrow>
          (case zf_read zf html_file_name of
             Inl e \<Rightarrow> Inl e
           | Inr html_doc \<Rightarrow> Inr (Some html_doc))
      | None \<Rightarrow> Inr None)"

text \<open>An entry is an HTML entry when its upper-cased name ends in \<^verbatim>\<open>.HTML\<close>.\<close>

definition is_html_entry :: "string \<times> bytes \<Rightarrow> bool" where
  "is_html_entry e = endswith (upper (fst e)) ''.HTML''"

text \<open>
  \<^verbatim>\<open>get_html_soup\<close> hands whatever \<^verbatim>\<open>extract_html\<close> returned to the
  \<^verbatim>\<open>BeautifulSoup\<close> constructor. The parser is a library, so it is a parameter of the
  model: a function from the document (or \<^verbatim>\<open>None\<close>) to whatever the parser answers.
\<close>

definition get_html_soup :: "(bytes option \<Rightarrow> 'r) \<Rightarrow> archive \<Rightarrow> py_error + 'r" where
  "get_html_soup BeautifulSoup zf =
     (case extract_html zf of
        Inl e \<Rightarrow> Inl e
      | Inr html_doc \<Rightarrow> Inr (BeautifulSoup html_doc))"

section \<open>The style resolver\<close>

text \<open>
  A tinycss stylesheet is the ordered list of its rules. A rule is a rule set, with a
  selector and declarations, or an at-rule (\<^verbatim>\<open>@import\<close>, \<^verbatim>\<open>@media\<close>,
  \<^verbatim>\<open>@page\<close>), which has no selector to call \<^verbatim>\<open>as_css()\<close> on. Of a rule set the
  code reads \<^verbatim>\<open>selector.as_css()\<close> and \<^verbatim>\<open>declarations\<close>; of a declaration its
  \<^verbatim>\<open>name\<close> and the tokens of its \<^verbatim>\<open>value\<close>, each through \<^verbatim>\<open>as_css()\<close>. A token
  is therefore modelled by its CSS text.
\<close>

record css_declaration =
  decl_name :: string
  decl_value :: "string list"

datatype css_rule =
    RuleSet (selector: string) (declarations: "css_declaration list")
  | AtRule (at_keyword: string)

type_synonym stylesheet = "css_rule list"

text \<open>
  The first loop of \<^verbatim>\<open>get_inline_style\<close> reads \<^verbatim>\<open>r.selector.as_css()\<close> of every
  rule of the sheet: an at-rule raises \<^verbatim>\<open>AttributeError\<close> there, and of the rule sets
  the last one that matches stays.
\<close>

fun rule_loop :: "css_rule option \<Rightarrow> css_rule list \<Rightarrow> string \<Rightarrow> py_error + css_rule option" where
  "rule_loop r0 [] tg = Inr r0"
| "rule_loop r0 (AtRule k # rs) tg = Inl AttributeError"
| "rule_loop r0 (RuleSet sel ds # rs) tg =
     (if sel = tg then rule_loop (Some (RuleSet sel ds)) rs tg else rule_loop r0 rs tg)"

definition declaration_css :: "css_declaration \<Rightarrow> string" where
  "declaration_css d = decl_name d @ '':'' @ join '' '' (decl_value d)"

text \<open>
  When no rule matched, \<^verbatim>\<open>rule\<close> is still \<^verbatim>\<open>None\<close> and \<^verbatim>\<open>rule.declarations\<close>
  raises \<^verbatim>\<open>AttributeError\<close>.
\<close>

definition get_inline_style :: "stylesheet \<Rightarrow> string \<Rightarrow> py_error + string" where
  "get_inline_style tinycss_sheet tg =
     (case rule_loop None tinycss_sheet tg of
        Inl e \<Rightarrow> Inl e
      | Inr None \<Rightarrow> Inl AttributeError
      | Inr (Some (AtRule k)) \<Rightarrow> Inl AttributeError
      | Inr (Some (RuleSet sel ds)) \<Rightarrow> Inr (join '';'' (map declaration_css ds)))"

section \<open>The document tree\<close>

text \<open>
  A BeautifulSoup tree has two kinds of node: a \<^verbatim>\<open>Tag\<close>, with its name, its attribute
  dictionary and the list of its children (\<^verbatim>\<open>contents\<close>), and a
  \<^verbatim>\<open>NavigableString\<close>. The functions of the program that take a soup or a tag take a
  \<open>tag\<close>. The attribute dictionary is the list of its items in insertion order; the
  value of a multi-valued attribute such as \<^verbatim>\<open>class\<close> is a list of strings, any other
  value a string.

  On a tree as the parser leaves it, \<^verbatim>\<open>findAll\<close>, \<^verbatim>\<open>find\<close> and \<^verbatim>\<open>extract\<close>
  work on the tree that \<^verbatim>\<open>contents\<close> spans, as the library documents them; the
  attribute passes and the page splitter are modelled on that tree. \<^verbatim>\<open>combine_tags\<close>
  writes to \<^verbatim>\<open>contents\<close> lists itself, past the library, and is modelled further
  below on the linked objects of the library.
\<close>

datatype attr_value = Str string | Lst "string list"

datatype node = T tag | NavigableString string
and tag = Tag (name: string) (attrs: "(string \<times> attr_value) list") (contents: "node list")

text \<open>
  All tags below a tag, in document order: what \<^verbatim>\<open>findAll()\<close> without a filter
  returns (tags only, no strings).
\<close>

fun descendants :: "tag \<Rightarrow> tag list"
and nodes_tags :: "node list \<Rightarrow> tag list" where
  "descendants (Tag n a cs) = nodes_tags cs"
| "nodes_tags [] = []"
| "nodes_tags (T t # ns) = t # descendants t @ nodes_tags ns"
| "nodes_tags (NavigableString s # ns) = nodes_tags ns"

definition findAll :: "tag \<Rightarrow> string \<Rightarrow> tag list" where
  "findAll soup nm = filter (\<lambda>t. name t = nm) (descendants soup)"

text \<open>\<^verbatim>\<open>soup.find(nm)\<close>: the first result of \<^verbatim>\<open>findAll\<close>, or \<^verbatim>\<open>None\<close>.\<close>

definition find_tag :: "tag \<Rightarrow> string \<Rightarrow> tag option" where
  "find_tag soup nm = (case findAll soup nm of [] \<Rightarrow> None | t # ts \<Rightarrow> Some t)"

text \<open>
  \<^verbatim>\<open>soup.find(nm).extract()\<close> takes the found tag, with everything below it, out of the
  children of its parent. \<open>extract_nodes nm\<close> is what is left of a list of children: the
  first tag of that name in document order is gone.
\<close>

fun extract_nodes :: "string \<Rightarrow> node list \<Rightarrow> node list" where
  "extract_nodes nm [] = []"
| "extract_nodes nm (NavigableString s # ns) = NavigableString s # extract_nodes nm ns"
| "extract_nodes nm (T (Tag n a cs) # ns) =
     (if n = nm then ns
      else if findAll (Tag n a cs) nm \<noteq> [] then T (Tag n a (extract_nodes nm cs)) # ns
      else T (Tag n a cs) # extract_nodes nm ns)"

definition extract_found :: "tag \<Rightarrow> string \<Rightarrow> tag" where
  "extract_found soup nm = Tag (name soup) (attrs soup) (extract_nodes nm (contents soup))"

section \<open>Rewriting attributes\<close>

text \<open>\<^verbatim>\<open>strip_attr\<close> rebuilds the dictionary without the key \<^verbatim>\<open>attr_name\<close>.\<close>

definition strip_attr :: "tag \<Rightarrow> string \<Rightarrow> tag" where
  "strip_attr tg attr_name =
     Tag (name tg) (filter (\<lambda>kv. fst kv \<noteq> attr_name) (attrs tg)) (contents tg)"

text \<open>
  \<^verbatim>\<open>for t in soup.findAll(nm): body(t)\<close>, for a loop body that assigns only to the
  attributes of \<^verbatim>\<open>t\<close>, as \<^verbatim>\<open>strip_attr\<close> and \<^verbatim>\<open>replace_tag_with_inline_css\<close>
  do: every tag below \<^verbatim>\<open>soup\<close> that has the name is replaced by what the body makes
  of it. The soup itself is not among its own descendants.
\<close>

fun for_findAll :: "string \<Rightarrow> (tag \<Rightarrow> tag) \<Rightarrow> tag \<Rightarrow> tag"
and for_findAll_nodes :: "string \<Rightarrow> (tag \<Rightarrow> tag) \<Rightarrow> node list \<Rightarrow> node list" where
  "for_findAll nm body (Tag n a cs) = Tag n a (for_findAll_nodes nm body cs)"
| "for_findAll_nodes nm body [] = []"
| "for_findAll_nodes nm body (NavigableString s # ns) =
     NavigableString s # for_findAll_nodes nm body ns"
| "for_findAll_nodes nm body (T (Tag n a cs) # ns) =
     T ((if n = nm then body else id) (Tag n a (for_findAll_nodes nm body cs)))
       # for_findAll_nodes nm body ns"

definition strip_soup_tags_attr :: "tag \<Rightarrow> string \<Rightarrow> string \<Rightarrow> tag" where
  "strip_soup_tags_attr soup nm attr_name = for_findAll nm (\<lambda>t. strip_attr t attr_name) soup"

definition basics :: "string list" where
  "basics = [''title'', ''subtitle'', ''h1'', ''h2'', ''h3'', ''h4'', ''h5'', ''h6'', ''a'', ''p'']"

definition strip_class_from_basics :: "tag \<Rightarrow> tag" where
  "strip_class_from_basics soup =
     fold (\<lambda>b s. for_findAll b (\<lambda>t. strip_attr t ''class'') s) basics soup"

text \<open>
  The same loop for a body that can raise: the first exception ends the pass.
\<close>

fun for_findAll_err :: "string \<Rightarrow> (tag \<Rightarrow> py_error + tag) \<Rightarrow> tag \<Rightarrow> py_error + tag"
and for_findAll_err_nodes ::
  "string \<Rightarrow> (tag \<Rightarrow> py_error + tag) \<Rightarrow> node list \<Rightarrow> py_error + node list" where
  "for_findAll_err nm body (Tag n a cs) =
     (case for_findAll_err_nodes nm body cs of
        Inl e \<Rightarrow> Inl e
      | Inr cs' \<Rightarrow> Inr (Tag n a cs'))"
| "for_findAll_err_nodes nm body [] = Inr []"
| "for_findAll_err_nodes nm body (NavigableString s # ns) =
     (case for_findAll_err_nodes nm body ns of
        Inl e \<Rightarrow> Inl e
      | Inr ns' \<Rightarrow> Inr (NavigableString s # ns'))"
| "for_findAll_err_nodes nm body (T (Tag n a cs) # ns) =
     (case for_findAll_err_nodes nm body cs of
        Inl e \<Rightarrow> Inl e
      | Inr cs' \<Rightarrow>
          (case (if n = nm then body (Tag n a cs') else Inr (Tag n a cs')) of
             Inl e \<Rightarrow> Inl e
           | Inr t' \<Rightarrow>
               (case for_findAll_err_nodes nm body ns of
                  Inl e \<Rightarrow> Inl e
                | Inr ns' \<Rightarrow> Inr (T t' # ns'))))"

text \<open>
  \<^verbatim>\<open>tag.get("class")\<close> is the value of the attribute or \<^verbatim>\<open>None\<close>. The value is
  true when it is not empty, and \<^verbatim>\<open>for c in class_\<close> runs over the strings of a list,
  or over the characters of a string.
\<close>

definition tag_get :: "tag \<Rightarrow> string \<Rightarrow> attr_value option" where
  "tag_get tg k = map_of (attrs tg) k"

fun truthy :: "attr_value \<Rightarrow> bool" where
  "truthy (Str s) = (s \<noteq> [])"
| "truthy (Lst xs) = (xs \<noteq> [])"

fun items_of :: "attr_value \<Rightarrow> string list" where
  "items_of (Str s) = map (\<lambda>c. [c]) s"
| "items_of (Lst xs) = xs"

text \<open>The list of style strings, one per class; the first class without a rule raises.\<close>

fun new_styles :: "stylesheet \<Rightarrow> string list \<Rightarrow> py_error + string list" where
  "new_styles styles [] = Inr []"
| "new_styles styles (c # cs) =
     (case get_inline_style styles (''.'' @ c) of
        Inl e \<Rightarrow> Inl e
      | Inr style_string \<Rightarrow>
          (case new_styles styles cs of
             Inl e \<Rightarrow> Inl e
           | Inr rest \<Rightarrow> Inr (style_string # rest)))"

text \<open>\<^verbatim>\<open>d[k] = v\<close> on a dictionary: the value of a key that is there, a new last item otherwise.\<close>

fun dict_set :: "('k \<times> 'v) list \<Rightarrow> 'k \<Rightarrow> 'v \<Rightarrow> ('k \<times> 'v) list" where
  "dict_set [] k v = [(k, v)]"
| "dict_set (p # ps) k v = (if fst p = k then (k, v) # ps else p # dict_set ps k v)"

definition replace_tag_with_inline_css :: "stylesheet \<Rightarrow> tag \<Rightarrow> py_error + tag" where
  "replace_tag_with_inline_css styles tg =
     (case tag_get tg ''class'' of
        None \<Rightarrow> Inr tg
      | Some class_ \<Rightarrow>
          if truthy class_ then
            (let tg1 = strip_attr (strip_attr tg ''style'') ''class''
             in case new_styles styles (items_of class_) of
                  Inl e \<Rightarrow> Inl e
                | Inr ss \<Rightarrow>
                    Inr (Tag (name tg1) (dict_set (attrs tg1) ''style'' (Str (join '';'' ss)))
                           (contents tg1)))
          else Inr tg)"

definition change_class_to_inlines :: "tag \<Rightarrow> stylesheet \<Rightarrow> py_error + tag" where
  "change_class_to_inlines soup styles =
     for_findAll_err ''span'' (replace_tag_with_inline_css styles) soup"

section \<open>Splitting into pages\<close>

text \<open>A tag found below a soup is smaller than the soup: \<^verbatim>\<open>split_pages\<close> terminates.\<close>

lemma descendants_size:
  "\<forall>t \<in> set (descendants p). size t < size p"
  "\<forall>t \<in> set (nodes_tags ns). size t \<le> size_list size ns"
  by (induction p and ns rule: descendants_nodes_tags.induct) (auto simp: less_Suc_eq_le)

lemma find_tag_size: "find_tag soup nm = Some t \<Longrightarrow> size t < size soup"
proof -
  assume "find_tag soup nm = Some t"
  then have "t \<in> set (findAll soup nm)"
    by (auto simp: find_tag_def split: list.splits)
  then have "t \<in> set (descendants soup)"
    by (simp add: findAll_def)
  then show ?thesis
    using descendants_size(1)[of soup] by blast
qed

text \<open>
  \<^verbatim>\<open>split_pages\<close>: a tag object is always true, so \<^verbatim>\<open>if hr\<close> and \<^verbatim>\<open>if new_page\<close>
  ask whether \<^verbatim>\<open>find\<close> found a tag. The parent is appended after the extraction, and
  the recursion runs on the extracted \<^verbatim>\<open>hr\<close>.
\<close>

function split_pages :: "tag \<Rightarrow> tag list" where
  "split_pages parent =
     (case find_tag parent ''hr'' of
        None \<Rightarrow> [parent]
      | Some hr \<Rightarrow> extract_found parent ''hr'' # split_pages hr)"
  by pat_completeness auto
termination
  by (relation "measure size") (auto simp: find_tag_size)

declare split_pages.simps [simp del]

text \<open>
  The content of a page, for the comparison of the pages with the body: everything below
  its root in document order, strings and tags, the \<^verbatim>\<open>hr\<close> tags themselves left out
  (what is below an \<^verbatim>\<open>hr\<close> counts).
\<close>

datatype piece = Text string | Element string "(string \<times> attr_value) list"

fun content_nodes :: "node list \<Rightarrow> piece list" where
  "content_nodes [] = []"
| "content_nodes (NavigableString s # ns) = Text s # content_nodes ns"
| "content_nodes (T (Tag n a cs) # ns) =
     (if n = ''hr'' then [] else [Element n a]) @ content_nodes cs @ content_nodes ns"

definition content :: "tag \<Rightarrow> piece list" where
  "content t = content_nodes (contents t)"

text \<open>
  The shape of the documents the page splitter is written for (Google Docs pages embedded
  in \<^verbatim>\<open>hr\<close> tags): a list of children has no \<^verbatim>\<open>hr\<close> below it, or its first \<^verbatim>\<open>hr\<close>
  in document order ends the list, nothing follows it or any tag around it, and the
  children of that \<^verbatim>\<open>hr\<close> have the same shape.
\<close>

fun hr_embedded :: "node list \<Rightarrow> bool" where
  "hr_embedded [] = True"
| "hr_embedded (NavigableString s # ns) = hr_embedded ns"
| "hr_embedded (T (Tag n a cs) # ns) =
     (if n = ''hr'' \<or> findAll (Tag n a cs) ''hr'' \<noteq> [] then ns = [] \<and> hr_embedded cs
      else hr_embedded ns)"

section \<open>Merging consecutive tags\<close>

text \<open>
  \<^verbatim>\<open>combine_tags\<close> appends to \<^verbatim>\<open>contents\<close> lists directly, while the library's
  \<^verbatim>\<open>findAll\<close>, \<^verbatim>\<open>findChildren\<close> and \<^verbatim>\<open>extract\<close> follow the links it keeps between
  the objects of a document (\<^verbatim>\<open>parent\<close>, \<^verbatim>\<open>next_element\<close>, \<^verbatim>\<open>previous_element\<close>,
  \<^verbatim>\<open>next_sibling\<close>, \<^verbatim>\<open>previous_sibling\<close>), which such a write leaves as they were.
  So this function is modelled on the objects: a document is the list of its objects, an
  object is known by its place in the list, and every link is such a place or
  \<^verbatim>\<open>None\<close>. The methods are those of \<^verbatim>\<open>bs4/element.py\<close> as in Beautiful Soup 4.4 to
  4.12. A string is an object without a name.
\<close>

record element =
  o_name :: "string option"
  o_text :: string
  o_attrs :: "(string \<times> attr_value) list"
  o_contents :: "nat list"
  o_parent :: "nat option"
  o_next_element :: "nat option"
  o_previous_element :: "nat option"
  o_next_sibling :: "nat option"
  o_previous_sibling :: "nat option"

type_synonym soup = "element list"

definition new_element :: "string option \<Rightarrow> string \<Rightarrow> (string \<times> attr_value) list \<Rightarrow> element" where
  "new_element nm txt ats =
     \<lparr>o_name = nm, o_text = txt, o_attrs = ats, o_contents = [], o_parent = None,
      o_next_element = None, o_previous_element = None, o_next_sibling = None,
      o_previous_sibling = None\<rparr>"

text \<open>
  The parser makes the objects in document order. Each new object gets its parent, the
  object parsed before it as \<^verbatim>\<open>previous_element\<close> (whose \<^verbatim>\<open>next_element\<close> it
  becomes), the last child of its parent so far as \<^verbatim>\<open>previous_sibling\<close> (whose
  \<^verbatim>\<open>next_sibling\<close> it becomes), and is appended to the \<^verbatim>\<open>contents\<close> of its parent.
\<close>

definition object_was_parsed :: "soup \<Rightarrow> nat option \<Rightarrow> nat \<Rightarrow> element \<Rightarrow> soup" where
  "object_was_parsed h most_recent parent e =
     (let i = length h;
          previous_sibling =
            (if o_contents (h ! parent) = [] then None else Some (last (o_contents (h ! parent))));
          h1 = h @ [e\<lparr>o_parent := Some parent, o_previous_element := most_recent,
                        o_previous_sibling := previous_sibling\<rparr>];
          h2 = (case most_recent of
                  None \<Rightarrow> h1
                | Some m \<Rightarrow> h1[m := (h1 ! m)\<lparr>o_next_element := Some i\<rparr>]);
          h3 = (case previous_sibling of
                  None \<Rightarrow> h2
                | Some s \<Rightarrow> h2[s := (h2 ! s)\<lparr>o_next_sibling := Some i\<rparr>])
      in h3[parent := (h3 ! parent)\<lparr>o_contents := o_contents (h3 ! parent) @ [i]\<rparr>])"

fun feed :: "node list \<Rightarrow> nat \<Rightarrow> soup \<times> nat option \<Rightarrow> soup \<times> nat option" where
  "feed [] parent st = st"
| "feed (NavigableString s # ns) parent (h, most_recent) =
     feed ns parent
       (object_was_parsed h most_recent parent (new_element None s []), Some (length h))"
| "feed (T (Tag n a cs) # ns) parent (h, most_recent) =
     feed ns parent
       (feed cs (length h)
          (object_was_parsed h most_recent parent (new_element (Some n) [] a), Some (length h)))"

text \<open>
  The objects of a parsed tree: the root tag is object 0, the tags and strings below it
  follow in document order.
\<close>

definition parsed :: "tag \<Rightarrow> soup" where
  "parsed t = fst (feed (contents t) 0 ([new_element (Some (name t)) [] (attrs t)], Some 0))"

text \<open>
  \<^verbatim>\<open>BeautifulSoup("<br/>")\<close> adds two objects, as the \<^verbatim>\<open>html.parser\<close> builder
  makes them: the document object, named \<^verbatim>\<open>[document]\<close>, which is outside the chain
  of \<^verbatim>\<open>next_element\<close> links and is not printed itself, and the \<^verbatim>\<open>br\<close> tag that is
  its only child.
\<close>

definition BeautifulSoup_br :: "soup \<Rightarrow> soup" where
  "BeautifulSoup_br h =
     h @ [(new_element (Some ''[document]'') [] [])\<lparr>o_contents := [Suc (length h)]\<rparr>,
          (new_element (Some ''br'') [] [])\<lparr>o_parent := Some (length h)\<rparr>]"

text \<open>\<^verbatim>\<open>all\<close> results of a list of computations, or the first exception.\<close>

fun collect :: "('e + 'a) list \<Rightarrow> 'e + 'a list" where
  "collect [] = Inr []"
| "collect (Inl e # rs) = Inl e"
| "collect (Inr x # rs) = (case collect rs of Inl e \<Rightarrow> Inl e | Inr xs \<Rightarrow> Inr (x # xs))"

text \<open>The tree that \<^verbatim>\<open>contents\<close> spans below an object: what is printed.\<close>

fun node_of :: "nat \<Rightarrow> soup \<Rightarrow> nat \<Rightarrow> py_error + node" where
  "node_of fuel h i =
     (case o_name (h ! i) of
        None \<Rightarrow> Inr (NavigableString (o_text (h ! i)))
      | Some nm \<Rightarrow>
          if fuel = 0 then Inl OutOfFuel
          else (case collect (map (node_of (fuel - 1) h) (o_contents (h ! i))) of
                  Inl e \<Rightarrow> Inl e
                | Inr cs \<Rightarrow> Inr (T (Tag nm (o_attrs (h ! i)) cs))))"

declare node_of.simps [simp del]

text \<open>
  \<^verbatim>\<open>_last_descendant\<close>: with a next sibling, the \<^verbatim>\<open>previous_element\<close> of that
  sibling (which can be \<^verbatim>\<open>None\<close>); without one, the last child of the last child and
  so on, down the \<^verbatim>\<open>contents\<close> lists.
\<close>

fun last_leaf :: "nat \<Rightarrow> soup \<Rightarrow> nat \<Rightarrow> py_error + nat" where
  "last_leaf fuel h last_child =
     (if o_name (h ! last_child) \<noteq> None \<and> o_contents (h ! last_child) \<noteq> [] then
        (if fuel = 0 then Inl OutOfFuel
         else last_leaf (fuel - 1) h (last (o_contents (h ! last_child))))
      else Inr last_child)"

declare last_leaf.simps [simp del]

definition last_descendant :: "nat \<Rightarrow> soup \<Rightarrow> nat \<Rightarrow> py_error + nat option" where
  "last_descendant fuel h self =
     (case o_next_sibling (h ! self) of
        Some next_sibling \<Rightarrow> Inr (o_previous_element (h ! next_sibling))
      | None \<Rightarrow>
          (case last_leaf fuel h self of
             Inl e \<Rightarrow> Inl e
           | Inr l \<Rightarrow> Inr (Some l)))"

text \<open>\<^verbatim>\<open>Tag.index\<close>: the place of an object in a \<^verbatim>\<open>contents\<close> list, by identity.\<close>

fun index_of :: "nat list \<Rightarrow> nat \<Rightarrow> nat option" where
  "index_of [] x = None"
| "index_of (y # ys) x = (if y = x then Some 0 else map_option Suc (index_of ys x))"

definition del_at :: "nat \<Rightarrow> 'a list \<Rightarrow> 'a list" where
  "del_at i xs = take i xs @ drop (Suc i) xs"

text \<open>
  \<^verbatim>\<open>extract\<close>: the object is deleted from the \<^verbatim>\<open>contents\<close> of its parent, if it has
  a parent (\<^verbatim>\<open>ValueError\<close> when it is not in that list); then the links around it are
  closed, each assignment in the order of the library, each test on the links as they
  are at that moment. \<^verbatim>\<open>last_child.next_element\<close> on \<^verbatim>\<open>None\<close> raises
  \<^verbatim>\<open>AttributeError\<close>.
\<close>

definition extract_el :: "nat \<Rightarrow> soup \<Rightarrow> nat \<Rightarrow> py_error + soup" where
  "extract_el fuel h self =
     (case (case o_parent (h ! self) of
              None \<Rightarrow> Inr h
            | Some p \<Rightarrow>
                (case index_of (o_contents (h ! p)) self of
                   None \<Rightarrow> Inl ValueError
                 | Some i \<Rightarrow>
                     Inr (h[p := (h ! p)\<lparr>o_contents := del_at i (o_contents (h ! p))\<rparr>]))) of
        Inl e \<Rightarrow> Inl e
      | Inr h1 \<Rightarrow>
          (case last_descendant fuel h1 self of
             Inl e \<Rightarrow> Inl e
           | Inr None \<Rightarrow> Inl AttributeError
           | Inr (Some last_child) \<Rightarrow>
               (let next_element = o_next_element (h1 ! last_child);
                    h2 = (case o_previous_element (h1 ! self) of
                            None \<Rightarrow> h1
                          | Some pe \<Rightarrow>
                              if Some pe \<noteq> next_element
                              then h1[pe := (h1 ! pe)\<lparr>o_next_element := next_element\<rparr>]
                              else h1);
                    h3 = (case next_element of
                            None \<Rightarrow> h2
                          | Some ne \<Rightarrow>
                              if Some ne \<noteq> o_previous_element (h2 ! self)
                              then h2[ne := (h2 ! ne)
                                     \<lparr>o_previous_element := o_previous_element (h2 ! self)\<rparr>]
                              else h2);
                    h4 = h3[self := (h3 ! self)\<lparr>o_previous_element := None\<rparr>];
                    h5 = h4[last_child := (h4 ! last_child)\<lparr>o_next_element := None\<rparr>];
                    h6 = h5[self := (h5 ! self)\<lparr>o_parent := None\<rparr>];
                    h7 = (case o_previous_sibling (h6 ! self) of
                            None \<Rightarrow> h6
                          | Some ps \<Rightarrow>
                              if Some ps \<noteq> o_next_sibling (h6 ! self)
                              then h6[ps := (h6 ! ps)
                                     \<lparr>o_next_sibling := o_next_sibling (h6 ! self)\<rparr>]
                              else h6);
                    h8 = (case o_next_sibling (h7 ! self) of
                            None \<Rightarrow> h7
                          | Some ns \<Rightarrow>
                              if Some ns \<noteq> o_previous_sibling (h7 ! self)
                              then h7[ns := (h7 ! ns)
                                     \<lparr>o_previous_sibling := o_previous_sibling (h7 ! self)\<rparr>]
                              else h7)
                in Inr (h8[self := (h8 ! self)\<lparr>o_previous_sibling := None,
                                                  o_next_sibling := None\<rparr>]))))"

text \<open>\<^verbatim>\<open>clear\<close>: every object of a copy of the \<^verbatim>\<open>contents\<close> list is extracted.\<close>

fun extract_each :: "nat \<Rightarrow> soup \<Rightarrow> nat list \<Rightarrow> py_error + soup" where
  "extract_each fuel h [] = Inr h"
| "extract_each fuel h (e # es) =
     (case extract_el fuel h e of
        Inl err \<Rightarrow> Inl err
      | Inr h1 \<Rightarrow> extract_each fuel h1 es)"

definition clear_tag :: "nat \<Rightarrow> soup \<Rightarrow> nat \<Rightarrow> py_error + soup" where
  "clear_tag fuel h self = extract_each fuel h (o_contents (h ! self))"

text \<open>
  \<^verbatim>\<open>descendants\<close>: nothing for a tag without contents; otherwise the objects from the
  first child along the \<^verbatim>\<open>next_element\<close> links, up to the object that follows the
  last descendant. When the chain ends in \<^verbatim>\<open>None\<close> before that object is reached,
  \<^verbatim>\<open>None.next_element\<close> raises \<^verbatim>\<open>AttributeError\<close>.
\<close>

fun walk :: "nat \<Rightarrow> soup \<Rightarrow> nat option \<Rightarrow> nat option \<Rightarrow> py_error + nat list" where
  "walk fuel h current stopNode =
     (if current = stopNode then Inr []
      else (case current of
              None \<Rightarrow> Inl AttributeError
            | Some c \<Rightarrow>
                if fuel = 0 then Inl OutOfFuel
                else (case walk (fuel - 1) h (o_next_element (h ! c)) stopNode of
                        Inl e \<Rightarrow> Inl e
                      | Inr rest \<Rightarrow> Inr (c # rest))))"

declare walk.simps [simp del]

definition descendants_of :: "nat \<Rightarrow> soup \<Rightarrow> nat \<Rightarrow> py_error + nat list" where
  "descendants_of fuel h self =
     (if o_contents (h ! self) = [] then Inr []
      else (case last_descendant fuel h self of
              Inl e \<Rightarrow> Inl e
            | Inr None \<Rightarrow> Inl AttributeError
            | Inr (Some l) \<Rightarrow>
                walk fuel h (Some (hd (o_contents (h ! self)))) (o_next_element (h ! l))))"

text \<open>
  \<^verbatim>\<open>findAll(nm)\<close> keeps the tags of that name among the descendants,
  \<^verbatim>\<open>findChildren()\<close> all the tags among them; neither keeps a string.
\<close>

definition find_all :: "nat \<Rightarrow> soup \<Rightarrow> nat \<Rightarrow> string \<Rightarrow> py_error + nat list" where
  "find_all fuel h self nm =
     (case descendants_of fuel h self of
        Inl e \<Rightarrow> Inl e
      | Inr ds \<Rightarrow> Inr (filter (\<lambda>d. o_name (h ! d) = Some nm) ds))"

definition find_children :: "nat \<Rightarrow> soup \<Rightarrow> nat \<Rightarrow> py_error + nat list" where
  "find_children fuel h self =
     (case descendants_of fuel h self of
        Inl e \<Rightarrow> Inl e
      | Inr ds \<Rightarrow> Inr (filter (\<lambda>d. o_name (h ! d) \<noteq> None) ds))"

text \<open>The second loop of \<^verbatim>\<open>combine_tags\<close>, over the reversed list \<^verbatim>\<open>must_clear\<close>.\<close>

fun must_clear_loop :: "nat \<Rightarrow> soup \<Rightarrow> nat list \<Rightarrow> py_error + soup" where
  "must_clear_loop fuel h [] = Inr h"
| "must_clear_loop fuel h (tg # must_clear) =
     (case find_children fuel h tg of
        Inl e \<Rightarrow> Inl e
      | Inr found \<Rightarrow>
          if length found = 0 then
            (case extract_el fuel h tg of
               Inl e \<Rightarrow> Inl e
             | Inr h1 \<Rightarrow> must_clear_loop fuel h1 must_clear)
          else must_clear_loop fuel h must_clear)"

text \<open>
  \<^verbatim>\<open>combine_tags\<close>. The first loop runs over \<^verbatim>\<open>parent.children\<close>, an iterator on the
  \<^verbatim>\<open>contents\<close> list of the parent: \<open>children_loop\<close> reads the child at place \<open>i\<close>
  from the list as it is at that moment. \<^verbatim>\<open>last_child\<close> is an object or \<^verbatim>\<open>None\<close>.
  In the merging branch the new \<^verbatim>\<open>br\<close> document and then the children of the child
  are appended to the \<^verbatim>\<open>contents\<close> list of \<^verbatim>\<open>last_child\<close>, no link of any object is
  touched, and the child is cleared.
\<close>

fun combine_tags :: "nat \<Rightarrow> soup \<Rightarrow> nat \<Rightarrow> string \<Rightarrow> py_error + soup"
and children_loop ::
  "nat \<Rightarrow> soup \<Rightarrow> nat \<Rightarrow> string \<Rightarrow> nat \<Rightarrow> nat option \<Rightarrow> py_error + soup" where
  "combine_tags fuel h parent tg =
     (if fuel = 0 then Inl OutOfFuel
      else (case children_loop (fuel - 1) h parent tg 0 None of
              Inl e \<Rightarrow> Inl e
            | Inr h1 \<Rightarrow>
                (case find_all fuel h1 parent tg of
                   Inl e \<Rightarrow> Inl e
                 | Inr must_clear \<Rightarrow> must_clear_loop fuel h1 (rev must_clear))))"
| "children_loop fuel h parent tg i last_child =
     (if length (o_contents (h ! parent)) \<le> i then Inr h
      else if fuel = 0 then Inl OutOfFuel
      else
        (let child = o_contents (h ! parent) ! i in
         if o_name (h ! child) = Some ''hr'' then
           (case combine_tags (fuel - 1) h child tg of
              Inl e \<Rightarrow> Inl e
            | Inr h1 \<Rightarrow> children_loop (fuel - 1) h1 parent tg (Suc i) last_child)
         else if o_name (h ! child) \<noteq> Some tg then
           children_loop (fuel - 1) h parent tg (Suc i) (Some child)
         else
           (case last_child of
              None \<Rightarrow> children_loop (fuel - 1) h parent tg (Suc i) (Some child)
            | Some l \<Rightarrow>
                if o_name (h ! l) \<noteq> Some tg then
                  children_loop (fuel - 1) h parent tg (Suc i) (Some child)
                else
                  (let h1 = BeautifulSoup_br h;
                       h2 = h1[l := (h1 ! l)\<lparr>o_contents := o_contents (h1 ! l) @ [length h]\<rparr>];
                       h3 = h2[l := (h2 ! l)
                              \<lparr>o_contents := o_contents (h2 ! l) @ o_contents (h2 ! child)\<rparr>]
                   in case clear_tag fuel h3 child of
                        Inl e \<Rightarrow> Inl e
                      | Inr h4 \<Rightarrow> children_loop (fuel - 1) h4 parent tg (Suc i) last_child))))"

declare combine_tags.simps [simp del] children_loop.simps [simp del]

text \<open>
  \<^verbatim>\<open>combine_tags\<close> called once, and called twice in succession, on object \<open>i\<close> of a
  parsed tree, and the tree below that object afterwards.
\<close>

definition combine_tags_once :: "nat \<Rightarrow> tag \<Rightarrow> nat \<Rightarrow> string \<Rightarrow> py_error + node" where
  "combine_tags_once fuel doc i tg =
     (case combine_tags fuel (parsed doc) i tg of
        Inl e \<Rightarrow> Inl e
      | Inr h \<Rightarrow> node_of fuel h i)"

definition combine_tags_twice :: "nat \<Rightarrow> tag \<Rightarrow> nat \<Rightarrow> string \<Rightarrow> py_error + node" where
  "combine_tags_twice fuel doc i tg =
     (case combine_tags fuel (parsed doc) i tg of
        Inl e \<Rightarrow> Inl e
      | Inr h \<Rightarrow>
          (case combine_tags fuel h i tg of
             Inl e \<Rightarrow> Inl e
           | Inr h2 \<Rightarrow> node_of fuel h2 i))"

section \<open>Predicates for the claims on attributes\<close>

text \<open>The classes a tag carries: the items of its \<^verbatim>\<open>class\<close> attribute, if it has one.\<close>

definition class_list :: "tag \<Rightarrow> string list" where
  "class_list t = (case tag_get t ''class'' of None \<Rightarrow> [] | Some class_ \<Rightarrow> items_of class_)"

text \<open>A tree with the attributes of every tag taken away: its shape, names and strings.\<close>

fun erase_attrs :: "tag \<Rightarrow> tag"
and erase_attrs_nodes :: "node list \<Rightarrow> node list" where
  "erase_attrs (Tag n a cs) = Tag n [] (erase_attrs_nodes cs)"
| "erase_attrs_nodes [] = []"
| "erase_attrs_nodes (NavigableString s # ns) = NavigableString s # erase_attrs_nodes ns"
| "erase_attrs_nodes (T t # ns) = T (erase_attrs t) # erase_attrs_nodes ns"

text \<open>
  What the loop over \<^verbatim>\<open>soup.findAll(nm)\<close> makes of a tag \<open>t\<close> below the soup: the loop
  run below \<open>t\<close>, and then the body on \<open>t\<close> itself when \<open>t\<close> has the name.
\<close>

definition processed :: "string \<Rightarrow> (tag \<Rightarrow> py_error + tag) \<Rightarrow> tag \<Rightarrow> tag \<Rightarrow> bool" where
  "processed nm body t t' =
     (\<exists>t''. for_findAll_err nm body t = Inr t'' \<and>
            (if name t = nm then body t'' else Inr t'') = Inr t')"

text \<open>
  What \<^verbatim>\<open>replace_tag_with_inline_css\<close> makes of the attributes of a tag: with at least
  one class, the key \<^verbatim>\<open>class\<close> is gone, \<^verbatim>\<open>style\<close> is the resolved style strings of
  the classes joined by semicolons, and the items of all other keys are as before;
  without a class nothing changes.
\<close>

definition inlined :: "stylesheet \<Rightarrow> (string \<times> attr_value) list \<Rightarrow> (string \<times> attr_value) list \<Rightarrow> bool" where
  "inlined styles a a' =
     (if class_list (Tag ''span'' a []) \<noteq> [] then
        map_of a' ''class'' = None \<and>
        (\<exists>ss. list_all2 (\<lambda>c s. get_inline_style styles (''.'' @ c) = Inr s)
                (class_list (Tag ''span'' a [])) ss \<and>
              map_of a' ''style'' = Some (Str (join '';'' ss))) \<and>
        filter (\<lambda>kv. fst kv \<noteq> ''style'' \<and> fst kv \<noteq> ''class'') a' =
          filter (\<lambda>kv. fst kv \<noteq> ''style'' \<and> fst kv \<noteq> ''class'') a
      else a' = a)"

section \<open>Lemmas on the archive reader and the style resolver\<close>

lemma html_name_loop_filter:
  "html_name_loop acc files =
     (case filter (\<lambda>f. endswith (upper f) ''.HTML'') files of
        [] \<Rightarrow> acc
      | f # fs \<Rightarrow> Some (last (f # fs)))"
  by (induction files arbitrary: acc) (auto split: list.splits)


lemma join_concat:
  "join sep xs = (case xs of [] \<Rightarrow> [] | x # ys \<Rightarrow> x @ concat (map (\<lambda>y. sep @ y) ys))"
  by (induction sep xs rule: join.induct) simp_all

section \<open>Claims on the archive reader\<close>

lemma last_filter_refine:
  assumes "filter P xs \<noteq> []" and "Q (last (filter P xs))" and "\<And>x. Q x \<Longrightarrow> P x"
  shows "last (filter Q xs) = last (filter P xs)"
  using assms
proof (induction xs rule: rev_induct)
  case Nil
  then show ?case by simp
next
  case (snoc x xs)
  show ?case
  proof (cases "P x")
    case True
    with snoc.prems show ?thesis by simp
  next
    case False
    with snoc.prems have "\<not> Q x" by blast
    with False snoc show ?thesis by simp
  qed
qed

lemma html_name_of_archive:
  "html_name_loop None (namelist zf) =
     (case filter is_html_entry zf of
        [] \<Rightarrow> None
      | e # es \<Rightarrow> Some (fst (last (e # es))))"
proof -
  have "filter (\<lambda>f. endswith (upper f) ''.HTML'') (map fst zf) = map fst (filter is_html_entry zf)"
    by (simp add: filter_map o_def is_html_entry_def[abs_def])
  then show ?thesis
    by (simp add: html_name_loop_filter namelist_def last_map split: list.splits)
qed

lemma extract_html_result:
  "extract_html zf =
     Inr (case filter is_html_entry zf of
            [] \<Rightarrow> None
          | e # es \<Rightarrow> Some (snd (last (e # es))))"
proof (cases "filter is_html_entry zf")
  case Nil
  then show ?thesis
    by (simp add: extract_html_def html_name_of_archive)
next
  case (Cons e es)
  define l where "l = last (filter is_html_entry zf)"
  have ne: "filter is_html_entry zf \<noteq> []"
    using Cons by simp
  have "l \<in> set (filter is_html_entry zf)"
    unfolding l_def using ne last_in_set by blast
  then have hl: "is_html_entry l"
    by simp
  have "last (filter (\<lambda>x. fst x = fst l) zf) = last (filter is_html_entry zf)"
  proof (rule last_filter_refine[OF ne])
    show "fst (last (filter is_html_entry zf)) = fst l"
      by (simp add: l_def)
  next
    fix x :: "string \<times> bytes"
    assume "fst x = fst l"
    with hl show "is_html_entry x"
      by (simp add: is_html_entry_def)
  qed
  moreover have "filter (\<lambda>x. fst x = fst l) zf \<noteq> []"
  proof -
    have "l \<in> set zf"
      using \<open>l \<in> set (filter is_html_entry zf)\<close> by simp
    then have "l \<in> set (filter (\<lambda>x. fst x = fst l) zf)"
      by simp
    then show ?thesis
      by force
  qed
  ultimately have "zf_read zf (fst l) = Inr (snd l)"
    unfolding zf_read_def l_def by (cases "filter (\<lambda>x. fst x = fst (last (filter is_html_entry zf))) zf") auto
  moreover have "html_name_loop None (namelist zf) = Some (fst l)"
    using Cons by (simp add: html_name_of_archive l_def)
  ultimately show ?thesis
    using Cons by (simp add: extract_html_def l_def)
qed

text \<open>
  Claim C1, as the code has it: for every archive, \<^verbatim>\<open>extract_html\<close> raises nothing and
  returns the bytes of the last entry whose upper-cased name ends in \<^verbatim>\<open>.HTML\<close>, and
  \<^verbatim>\<open>None\<close> when no entry has such a name.
\<close>

theorem extract_html_last_match:
  "extract_html zf =
     Inr (case filter is_html_entry zf of
            [] \<Rightarrow> None
          | e # es \<Rightarrow> Some (snd (last (e # es))))"
  by (rule extract_html_result)

text \<open>
  Claim C1 as stated fails: in an archive with two HTML entries the first entry that
  matches holds \<^verbatim>\<open>first\<close>, and \<^verbatim>\<open>extract_html\<close> returns the bytes of the second.
\<close>

theorem extract_html_first_match_counterexample:
  "List.find is_html_entry [(''a.html'', ''first''), (''b.HTML'', ''second'')]
     = Some (''a.html'', ''first'')
   \<and> extract_html [(''a.html'', ''first''), (''b.HTML'', ''second'')] = Inr (Some ''second'')"
  by (simp add: extract_html_result is_html_entry_def endswith_def upper_def upper_char_def)

text \<open>
  Claim C4, as the code has it: for every archive without an entry whose upper-cased name
  ends in \<^verbatim>\<open>.HTML\<close>, \<^verbatim>\<open>extract_html\<close> returns \<^verbatim>\<open>None\<close>, and \<^verbatim>\<open>get_html_soup\<close>
  does not stop there: it calls the parser on that \<^verbatim>\<open>None\<close> and returns what the
  parser answers.
\<close>

theorem get_html_soup_parses_absent:
  "filter is_html_entry zf = [] \<Longrightarrow>
     extract_html zf = Inr None \<and> get_html_soup BeautifulSoup zf = Inr (BeautifulSoup None)"
  by (simp add: get_html_soup_def extract_html_result)

theorem get_html_soup_parses_absent_witness:
  "filter is_html_entry [(''notes.txt'', ''x'')] = []
   \<and> extract_html [(''notes.txt'', ''x'')] = Inr None
   \<and> get_html_soup (\<lambda>html_doc. html_doc = None) [(''notes.txt'', ''x'')] = Inr True"
proof -
  have h: "filter is_html_entry [(''notes.txt'', ''x'')] = []"
    by (simp add: is_html_entry_def endswith_def upper_def upper_char_def)
  show ?thesis
    using h get_html_soup_parses_absent [OF h, of "\<lambda>html_doc. html_doc = None"] by simp
qed

text \<open>
  Claim C4 as stated fails: on an archive without an HTML entry the pipeline does go on
  to the parser. A parser that answers whether it was handed \<^verbatim>\<open>None\<close> answers yes.
\<close>

theorem get_html_soup_short_circuit_counterexample:
  "extract_html [(''image.png'', ''x'')] = Inr None
   \<and> get_html_soup (\<lambda>html_doc. html_doc = None) [(''image.png'', ''x'')] = Inr True"
  by (simp add: get_html_soup_def extract_html_result is_html_entry_def endswith_def upper_def
      upper_char_def)

section \<open>Claims on the style resolver\<close>





section \<open>Claims on the attribute passes\<close>

lemma descendants_contents: "descendants t = nodes_tags (contents t)"
  by (cases t) simp

lemma for_findAll_shallow:
  assumes nm: "\<And>t. name (body t) = name t"
    and cs: "\<And>t. contents (body t) = contents t"
    and at: "\<And>t. attrs (body t) = h (attrs t)"
  shows "map (\<lambda>t. (name t, attrs t)) (descendants (for_findAll nm body p)) =
           map (\<lambda>t. (name t, if name t = nm then h (attrs t) else attrs t)) (descendants p)"
    and "map (\<lambda>t. (name t, attrs t)) (nodes_tags (for_findAll_nodes nm body ns)) =
           map (\<lambda>t. (name t, if name t = nm then h (attrs t) else attrs t)) (nodes_tags ns)"
proof (induction p and ns rule: descendants_nodes_tags.induct)
  case (3 t ns)
  then show ?case
    by (cases t) (simp add: descendants_contents[of "body _"] assms)
qed simp_all

lemma strip_attr_sel [simp]:
  "name (strip_attr t k) = name t"
  "contents (strip_attr t k) = contents t"
  "attrs (strip_attr t k) = filter (\<lambda>kv. fst kv \<noteq> k) (attrs t)"
  by (simp_all add: strip_attr_def)

lemma fold_strip_shallow:
  "map (\<lambda>t. (name t, attrs t))
     (descendants (fold (\<lambda>b s. for_findAll b (\<lambda>t. strip_attr t k) s) bs soup)) =
   map (\<lambda>t. (name t, if name t \<in> set bs then filter (\<lambda>kv. fst kv \<noteq> k) (attrs t) else attrs t))
     (descendants soup)"
proof (induction bs arbitrary: soup)
  case Nil
  then show ?case by simp
next
  case (Cons b bs)
  let ?F = "filter (\<lambda>kv. fst kv \<noteq> k)"
  let ?g = "\<lambda>(n, a). (n, if n \<in> set bs then ?F a else a)"
  let ?s1 = "for_findAll b (\<lambda>t. strip_attr t k) soup"
  have step: "map (\<lambda>t. (name t, attrs t)) (descendants ?s1) =
      map (\<lambda>t. (name t, if name t = b then ?F (attrs t) else attrs t)) (descendants soup)"
    by (rule for_findAll_shallow(1)) simp_all
  have "map (\<lambda>t. (name t, attrs t))
          (descendants (fold (\<lambda>b s. for_findAll b (\<lambda>t. strip_attr t k) s) (b # bs) soup)) =
        map ?g (map (\<lambda>t. (name t, attrs t)) (descendants ?s1))"
    using Cons.IH[of ?s1] by (simp add: o_def)
  also have "\<dots> = map ?g (map (\<lambda>t. (name t, if name t = b then ?F (attrs t) else attrs t))
                        (descendants soup))"
    by (simp only: step)
  also have "\<dots> = map (\<lambda>t. (name t, if name t \<in> set (b # bs) then ?F (attrs t) else attrs t))
                     (descendants soup)"
    by auto
  finally show ?case .
qed

text \<open>
  Claim C7: after \<^verbatim>\<open>strip_class_from_basics\<close> the tags below the soup are the same
  tags in the same order; each tag whose name is in the fixed set has its attributes
  without the key \<^verbatim>\<open>class\<close> and otherwise as they were, in their order (so it has no
  \<^verbatim>\<open>class\<close> attribute), and every other tag has its attributes unchanged.
\<close>

theorem strip_class_from_basics_attrs:
  "map (\<lambda>t. (name t, attrs t)) (descendants (strip_class_from_basics soup)) =
     map (\<lambda>t. (name t,
               if name t \<in> {''title'', ''subtitle'', ''h1'', ''h2'', ''h3'', ''h4'', ''h5'', ''h6'',
                              ''a'', ''p''}
               then filter (\<lambda>kv. fst kv \<noteq> ''class'') (attrs t)
               else attrs t))
       (descendants soup)
   \<and> (\<forall>t \<in> set (descendants (strip_class_from_basics soup)).
        name t \<in> {''title'', ''subtitle'', ''h1'', ''h2'', ''h3'', ''h4'', ''h5'', ''h6'', ''a'', ''p''}
          \<longrightarrow> tag_get t ''class'' = None)"
proof -
  let ?B = "{''title'', ''subtitle'', ''h1'', ''h2'', ''h3'', ''h4'', ''h5'', ''h6'', ''a'', ''p''}"
  have B: "set basics = ?B"
    by (simp add: basics_def)
  have eq: "map (\<lambda>t. (name t, attrs t)) (descendants (strip_class_from_basics soup)) =
     map (\<lambda>t. (name t, if name t \<in> ?B then filter (\<lambda>kv. fst kv \<noteq> ''class'') (attrs t) else attrs t))
       (descendants soup)"
    unfolding strip_class_from_basics_def fold_strip_shallow B ..
  have "tag_get t ''class'' = None"
    if "t \<in> set (descendants (strip_class_from_basics soup))" and "name t \<in> ?B" for t
  proof -
    from that(1) have "(name t, attrs t)
        \<in> set (map (\<lambda>t. (name t, attrs t)) (descendants (strip_class_from_basics soup)))"
      by force
    then obtain u where u: "name t = name u"
      "attrs t = (if name u \<in> ?B then filter (\<lambda>kv. fst kv \<noteq> ''class'') (attrs u) else attrs u)"
      unfolding eq by auto
    with that(2) have "attrs t = filter (\<lambda>kv. fst kv \<noteq> ''class'') (attrs u)"
      by simp
    then show ?thesis
      by (auto simp: tag_get_def map_of_eq_None_iff)
  qed
  with eq show ?thesis
    by blast
qed

theorem strip_class_from_basics_attrs_witness:
  "map (\<lambda>t. (name t, attrs t))
     (descendants (strip_class_from_basics
        (Tag ''body'' []
           [T (Tag ''p'' [(''class'', Lst [''c1'']), (''id'', Str ''x'')]
                 [T (Tag ''span'' [(''class'', Lst [''c2''])] [NavigableString ''t''])])])))
   = [(''p'', [(''id'', Str ''x'')]), (''span'', [(''class'', Lst [''c2''])])]"
  using strip_class_from_basics_attrs
    [of "Tag ''body'' []
           [T (Tag ''p'' [(''class'', Lst [''c1'']), (''id'', Str ''x'')]
                 [T (Tag ''span'' [(''class'', Lst [''c2''])] [NavigableString ''t''])])]"]
  by simp

lemma dict_set_fresh: "k \<notin> fst ` set ps \<Longrightarrow> dict_set ps k v = ps @ [(k, v)]"
  by (induction ps) auto

lemma new_styles_Inr:
  "new_styles styles cs = Inr ss \<Longrightarrow>
     list_all2 (\<lambda>c s. get_inline_style styles (''.'' @ c) = Inr s) cs ss"
  by (induction cs arbitrary: ss) (auto split: sum.splits)

lemma truthy_items: "truthy v \<longleftrightarrow> items_of v \<noteq> []"
  by (cases v) auto

lemma join_Nil_iff: "sep \<noteq> [] \<Longrightarrow> join sep ss = [] \<longleftrightarrow> ss = [] \<or> ss = [[]]"
  by (induction sep ss rule: join.induct) auto

lemma replace_tag_rel:
  assumes "replace_tag_with_inline_css styles t = Inr t'"
  shows "name t' = name t \<and> contents t' = contents t \<and> inlined styles (attrs t) (attrs t')"
proof (cases "tag_get t ''class''")
  case None
  with assms show ?thesis
    by (simp add: replace_tag_with_inline_css_def inlined_def class_list_def tag_get_def)
next
  case (Some v)
  show ?thesis
  proof (cases "truthy v")
    case False
    with Some assms show ?thesis
      by (simp add: replace_tag_with_inline_css_def inlined_def class_list_def tag_get_def
          truthy_items)
  next
    case True
    let ?a1 = "filter (\<lambda>kv. fst kv \<noteq> ''class'') (filter (\<lambda>kv. fst kv \<noteq> ''style'') (attrs t))"
    from Some True assms obtain ss where
      ss: "new_styles styles (items_of v) = Inr ss" and
      t': "t' = Tag (name t) (dict_set ?a1 ''style'' (Str (join '';'' ss))) (contents t)"
      by (auto simp: replace_tag_with_inline_css_def strip_attr_def Let_def split: sum.splits)
    have fresh: "''style'' \<notin> fst ` set ?a1"
      by auto
    have a': "attrs t' = ?a1 @ [(''style'', Str (join '';'' ss))]"
      unfolding t' by (simp only: tag.sel dict_set_fresh[OF fresh])
    have "map_of (attrs t') ''class'' = None"
      unfolding a' by (auto simp: map_of_eq_None_iff)
    moreover have "map_of (attrs t') ''style'' = Some (Str (join '';'' ss))"
    proof -
      have "map_of ?a1 ''style'' = None"
        using fresh by (simp add: map_of_eq_None_iff)
      then show ?thesis
        unfolding a' by (simp add: map_add_def)
    qed
    moreover have "filter (\<lambda>kv. fst kv \<noteq> ''style'' \<and> fst kv \<noteq> ''class'') (attrs t') =
          filter (\<lambda>kv. fst kv \<noteq> ''style'' \<and> fst kv \<noteq> ''class'') (attrs t)"
      unfolding a' by (simp add: conj_commute)
    moreover have "class_list (Tag ''span'' (attrs t) []) = items_of v"
      using Some by (simp add: class_list_def tag_get_def)
    moreover have "items_of v \<noteq> []"
      using True by (simp add: truthy_items)
    ultimately show ?thesis
      using new_styles_Inr[OF ss] by (auto simp: inlined_def t')
  qed
qed

lemma for_findAll_err_root:
  "for_findAll_err nm body p = Inr p' \<Longrightarrow> name p' = name p \<and> attrs p' = attrs p"
  by (cases p) (auto split: sum.splits)

lemma for_findAll_err_erase:
  assumes body: "\<And>t t'. body t = Inr t' \<Longrightarrow> name t' = name t \<and> contents t' = contents t"
  shows "for_findAll_err nm body p = Inr p' \<Longrightarrow> erase_attrs p' = erase_attrs p"
    and "for_findAll_err_nodes nm body ns = Inr ns' \<Longrightarrow>
           erase_attrs_nodes ns' = erase_attrs_nodes ns"
proof (induction p and ns arbitrary: p' and ns' rule: descendants_nodes_tags.induct)
  case (1 n a cs)
  then show ?case
    by (auto split: sum.splits)
next
  case 2
  then show ?case by simp
next
  case (3 t ns)
  obtain n a cs where t: "t = Tag n a cs"
    by (cases t)
  from "3.prems" obtain cs' t' ns1 where
    cs': "for_findAll_err_nodes nm body cs = Inr cs'" and
    t': "(if n = nm then body (Tag n a cs') else Inr (Tag n a cs')) = Inr t'" and
    ns1: "for_findAll_err_nodes nm body ns = Inr ns1" and
    res: "ns' = T t' # ns1"
    by (auto simp: t split: sum.splits)
  have "for_findAll_err nm body t = Inr (Tag n a cs')"
    by (simp add: t cs')
  from "3.IH"(1)[OF this] have below: "erase_attrs_nodes cs' = erase_attrs_nodes cs"
    by (simp add: t)
  have "name t' = n \<and> contents t' = cs'"
    using t' body[of "Tag n a cs'" t'] by (auto split: if_splits)
  then have "erase_attrs t' = erase_attrs t"
    using below by (cases t') (simp add: t)
  then show ?case
    using "3.IH"(2)[OF ns1] by (simp add: res)
next
  case (4 s ns)
  then show ?case
    by (auto split: sum.splits)
qed

lemma for_findAll_err_same:
  shows "(\<forall>u \<in> set (descendants p). name u = nm \<longrightarrow> body u = Inr u) \<Longrightarrow>
           for_findAll_err nm body p = Inr p"
    and "(\<forall>u \<in> set (nodes_tags ns). name u = nm \<longrightarrow> body u = Inr u) \<Longrightarrow>
           for_findAll_err_nodes nm body ns = Inr ns"
proof (induction p and ns rule: descendants_nodes_tags.induct)
  case (3 t ns)
  obtain n a cs where t: "t = Tag n a cs"
    by (cases t)
  from "3.prems" have "for_findAll_err nm body t = Inr t"
    by (intro "3.IH"(1)) simp
  then have cs: "for_findAll_err_nodes nm body cs = Inr cs"
    by (auto simp: t split: sum.splits)
  from "3.prems" have ns: "for_findAll_err_nodes nm body ns = Inr ns"
    by (intro "3.IH"(2)) simp
  from "3.prems" have "n = nm \<longrightarrow> body (Tag n a cs) = Inr (Tag n a cs)"
    by (simp add: t)
  with cs ns show ?case
    by (simp add: t)
qed simp_all

lemma for_findAll_err_processed:
  assumes body: "\<And>t t'. body t = Inr t' \<Longrightarrow> name t' = name t \<and> contents t' = contents t"
  shows "for_findAll_err nm body p = Inr p' \<Longrightarrow>
           list_all2 (processed nm body) (descendants p) (descendants p')"
    and "for_findAll_err_nodes nm body ns = Inr ns' \<Longrightarrow>
           list_all2 (processed nm body) (nodes_tags ns) (nodes_tags ns')"
proof (induction p and ns arbitrary: p' and ns' rule: descendants_nodes_tags.induct)
  case (1 n a cs)
  then show ?case
    by (auto split: sum.splits)
next
  case 2
  then show ?case by simp
next
  case (3 t ns)
  obtain n a cs where t: "t = Tag n a cs"
    by (cases t)
  from "3.prems" obtain cs' t' ns1 where
    cs': "for_findAll_err_nodes nm body cs = Inr cs'" and
    t': "(if n = nm then body (Tag n a cs') else Inr (Tag n a cs')) = Inr t'" and
    ns1: "for_findAll_err_nodes nm body ns = Inr ns1" and
    res: "ns' = T t' # ns1"
    by (auto simp: t split: sum.splits)
  have root: "for_findAll_err nm body t = Inr (Tag n a cs')"
    by (simp add: t cs')
  from "3.IH"(1)[OF this] have below:
    "list_all2 (processed nm body) (nodes_tags cs) (nodes_tags cs')"
    by (simp add: t)
  have "contents t' = cs'"
    using t' body[of "Tag n a cs'" t'] by (auto split: if_splits)
  moreover have "processed nm body t t'"
    unfolding processed_def using root t' by (intro exI[of _ "Tag n a cs'"]) (simp add: t)
  ultimately show ?case
    using below "3.IH"(2)[OF ns1]
    by (simp add: res t descendants_contents[of t'] list_all2_appendI)
next
  case (4 s ns)
  then show ?case
    by (auto split: sum.splits)
qed

lemma erase_attrs_shallow:
  "name t' = name t \<Longrightarrow> contents t' = contents t \<Longrightarrow> erase_attrs t' = erase_attrs t"
  by (cases t; cases t') simp

lemma replace_tag_no_class:
  "class_list u = [] \<Longrightarrow> replace_tag_with_inline_css styles u = Inr u"
  by (auto simp: class_list_def replace_tag_with_inline_css_def truthy_items split: option.splits)

lemma replace_tag_shallow:
  "replace_tag_with_inline_css styles t = Inr t' \<Longrightarrow> name t' = name t \<and> contents t' = contents t"
  using replace_tag_rel by blast

text \<open>
  Claim C6, as the code has it: when the pass over the spans completes (every class of
  every span below the soup has a rule), the soup keeps its name and attributes, and the
  tree has the shape, the names and the strings it had. Tag by tag in document order: a
  span that carried at least one class has no \<^verbatim>\<open>class\<close> attribute, its \<^verbatim>\<open>style\<close>
  attribute is the resolved style strings of its classes, one per class, joined by
  semicolons, and its other attributes are unchanged; that style string is empty exactly
  when the span has one class and the rule of that class resolves to the empty string. A
  span without a class, and every tag that is not a span, keeps its attributes, and is
  left completely unchanged, with all that is below it, when no span with a class is
  below it.
\<close>

theorem change_class_to_inlines_spans:
  "change_class_to_inlines soup styles = Inr soup' \<Longrightarrow>
   name soup' = name soup \<and> attrs soup' = attrs soup \<and> erase_attrs soup' = erase_attrs soup \<and>
   list_all2
     (\<lambda>t t'.
        erase_attrs t' = erase_attrs t \<and>
        (if name t = ''span'' \<and> class_list t \<noteq> [] then
           tag_get t' ''class'' = None \<and>
           (\<exists>ss. list_all2 (\<lambda>c s. get_inline_style styles (''.'' @ c) = Inr s) (class_list t) ss \<and>
                 tag_get t' ''style'' = Some (Str (hd ss @ concat (map (\<lambda>s. '';'' @ s) (tl ss)))) \<and>
                 (hd ss @ concat (map (\<lambda>s. '';'' @ s) (tl ss)) = [] \<longleftrightarrow> ss = [[]])) \<and>
           filter (\<lambda>kv. fst kv \<noteq> ''style'' \<and> fst kv \<noteq> ''class'') (attrs t') =
             filter (\<lambda>kv. fst kv \<noteq> ''style'' \<and> fst kv \<noteq> ''class'') (attrs t)
         else attrs t' = attrs t) \<and>
        ((\<forall>u \<in> set (t # descendants t). name u = ''span'' \<longrightarrow> class_list u = []) \<longrightarrow> t' = t))
     (descendants soup) (descendants soup')"
proof -
  let ?body = "replace_tag_with_inline_css styles"
  assume pass: "change_class_to_inlines soup styles = Inr soup'"
  then have run: "for_findAll_err ''span'' ?body soup = Inr soup'"
    by (simp add: change_class_to_inlines_def)
  have shallow: "\<And>t t'. ?body t = Inr t' \<Longrightarrow> name t' = name t \<and> contents t' = contents t"
    by (rule replace_tag_shallow)
  have root: "name soup' = name soup \<and> attrs soup' = attrs soup"
    using run by (rule for_findAll_err_root)
  have shape: "erase_attrs soup' = erase_attrs soup"
    using shallow run by (rule for_findAll_err_erase(1))
  have rel: "list_all2 (processed ''span'' ?body) (descendants soup) (descendants soup')"
    using shallow run by (rule for_findAll_err_processed(1))
  have cl: "class_list (Tag ''span'' (attrs t) []) = class_list t" for t
    by (simp add: class_list_def tag_get_def)
  have joined: "join '';'' ss = hd ss @ concat (map (\<lambda>s. '';'' @ s) (tl ss))"
    if "ss \<noteq> []" for ss
  proof -
    have "((@) '';'') = ((#) CHR '';'')"
      by (rule ext) simp
    with that show ?thesis
      by (cases ss) (simp_all add: join_concat)
  qed
  have each: "erase_attrs t' = erase_attrs t \<and>
        (if name t = ''span'' \<and> class_list t \<noteq> [] then
           tag_get t' ''class'' = None \<and>
           (\<exists>ss. list_all2 (\<lambda>c s. get_inline_style styles (''.'' @ c) = Inr s) (class_list t) ss \<and>
                 tag_get t' ''style'' = Some (Str (hd ss @ concat (map (\<lambda>s. '';'' @ s) (tl ss)))) \<and>
                 (hd ss @ concat (map (\<lambda>s. '';'' @ s) (tl ss)) = [] \<longleftrightarrow> ss = [[]])) \<and>
           filter (\<lambda>kv. fst kv \<noteq> ''style'' \<and> fst kv \<noteq> ''class'') (attrs t') =
             filter (\<lambda>kv. fst kv \<noteq> ''style'' \<and> fst kv \<noteq> ''class'') (attrs t)
         else attrs t' = attrs t) \<and>
        ((\<forall>u \<in> set (t # descendants t). name u = ''span'' \<longrightarrow> class_list u = []) \<longrightarrow> t' = t)"
    if p: "processed ''span'' ?body t t'" for t t'
  proof -
    from p obtain t'' where
      below: "for_findAll_err ''span'' ?body t = Inr t''" and
      self: "(if name t = ''span'' then ?body t'' else Inr t'') = Inr t'"
      unfolding processed_def by blast
    have r2: "name t'' = name t" "attrs t'' = attrs t"
      using for_findAll_err_root[OF below] by simp_all
    have e2: "erase_attrs t'' = erase_attrs t"
      using shallow below by (rule for_findAll_err_erase(1))
    have s2: "name t' = name t''" "contents t' = contents t''"
      using self shallow[of t'' t'] by (auto split: if_splits)
    have e: "erase_attrs t' = erase_attrs t"
      using erase_attrs_shallow[OF s2] e2 by simp
    have a: "if name t = ''span'' \<and> class_list t \<noteq> [] then
           tag_get t' ''class'' = None \<and>
           (\<exists>ss. list_all2 (\<lambda>c s. get_inline_style styles (''.'' @ c) = Inr s) (class_list t) ss \<and>
                 tag_get t' ''style'' = Some (Str (hd ss @ concat (map (\<lambda>s. '';'' @ s) (tl ss)))) \<and>
                 (hd ss @ concat (map (\<lambda>s. '';'' @ s) (tl ss)) = [] \<longleftrightarrow> ss = [[]])) \<and>
           filter (\<lambda>kv. fst kv \<noteq> ''style'' \<and> fst kv \<noteq> ''class'') (attrs t') =
             filter (\<lambda>kv. fst kv \<noteq> ''style'' \<and> fst kv \<noteq> ''class'') (attrs t)
         else attrs t' = attrs t"
    proof (cases "name t = ''span''")
      case False
      with self r2 show ?thesis
        by simp
    next
      case True
      with self have b: "?body t'' = Inr t'"
        by simp
      from replace_tag_rel[OF b] have inl: "inlined styles (attrs t) (attrs t')"
        by (simp add: r2)
      show ?thesis
      proof (cases "class_list t = []")
        case True
        with inl show ?thesis
          by (simp add: inlined_def cl)
      next
        case False
        with inl obtain ss where
          c: "map_of (attrs t') ''class'' = None" and
          l: "list_all2 (\<lambda>c s. get_inline_style styles (''.'' @ c) = Inr s) (class_list t) ss" and
          st: "map_of (attrs t') ''style'' = Some (Str (join '';'' ss))" and
          f: "filter (\<lambda>kv. fst kv \<noteq> ''style'' \<and> fst kv \<noteq> ''class'') (attrs t') =
                filter (\<lambda>kv. fst kv \<noteq> ''style'' \<and> fst kv \<noteq> ''class'') (attrs t)"
          by (auto simp: inlined_def cl)
        from l False have ne: "ss \<noteq> []"
          by auto
        have jn: "join '';'' ss = hd ss @ concat (map (\<lambda>s. '';'' @ s) (tl ss))"
          by (rule joined[OF ne])
        have "join '';'' ss = [] \<longleftrightarrow> ss = [[]]"
          using ne by (simp add: join_Nil_iff)
        then have emp: "hd ss @ concat (map (\<lambda>s. '';'' @ s) (tl ss)) = [] \<longleftrightarrow> ss = [[]]"
          unfolding jn .
        have st': "tag_get t' ''style'' = Some (Str (hd ss @ concat (map (\<lambda>s. '';'' @ s) (tl ss))))"
          using st unfolding jn tag_get_def .
        have ex: "\<exists>ss. list_all2 (\<lambda>c s. get_inline_style styles (''.'' @ c) = Inr s) (class_list t) ss \<and>
                 tag_get t' ''style'' = Some (Str (hd ss @ concat (map (\<lambda>s. '';'' @ s) (tl ss)))) \<and>
                 (hd ss @ concat (map (\<lambda>s. '';'' @ s) (tl ss)) = [] \<longleftrightarrow> ss = [[]])"
          using l st' emp by blast
        have c': "tag_get t' ''class'' = None"
          using c by (simp only: tag_get_def)
        have cond: "name t = ''span'' \<and> class_list t \<noteq> []"
          using \<open>name t = ''span''\<close> False by simp
        show ?thesis
          unfolding if_P[OF cond] using c' ex f by (intro conjI)
      qed
    qed
    have u: "t' = t" if none: "\<forall>u \<in> set (t # descendants t). name u = ''span'' \<longrightarrow> class_list u = []"
    proof -
      have "\<forall>u \<in> set (descendants t). name u = ''span'' \<longrightarrow> ?body u = Inr u"
        using none by (simp add: replace_tag_no_class)
      then have "for_findAll_err ''span'' ?body t = Inr t"
        by (rule for_findAll_err_same(1))
      with below have same: "t'' = t"
        by simp
      show ?thesis
      proof (cases "name t = ''span''")
        case True
        with none have "?body t = Inr t"
          by (simp add: replace_tag_no_class)
        with self True same show ?thesis
          by simp
      next
        case False
        with self same show ?thesis
          by simp
      qed
    qed
    from e a u show ?thesis
      by blast
  qed
  have "list_all2
     (\<lambda>t t'.
        erase_attrs t' = erase_attrs t \<and>
        (if name t = ''span'' \<and> class_list t \<noteq> [] then
           tag_get t' ''class'' = None \<and>
           (\<exists>ss. list_all2 (\<lambda>c s. get_inline_style styles (''.'' @ c) = Inr s) (class_list t) ss \<and>
                 tag_get t' ''style'' = Some (Str (hd ss @ concat (map (\<lambda>s. '';'' @ s) (tl ss)))) \<and>
                 (hd ss @ concat (map (\<lambda>s. '';'' @ s) (tl ss)) = [] \<longleftrightarrow> ss = [[]])) \<and>
           filter (\<lambda>kv. fst kv \<noteq> ''style'' \<and> fst kv \<noteq> ''class'') (attrs t') =
             filter (\<lambda>kv. fst kv \<noteq> ''style'' \<and> fst kv \<noteq> ''class'') (attrs t)
         else attrs t' = attrs t) \<and>
        ((\<forall>u \<in> set (t # descendants t). name u = ''span'' \<longrightarrow> class_list u = []) \<longrightarrow> t' = t))
     (descendants soup) (descendants soup')"
    by (rule list_all2_mono[OF rel]) (rule each)
  with root shape show ?thesis
    by blast
qed

theorem change_class_to_inlines_spans_witness:
  "change_class_to_inlines
     (Tag ''body'' []
        [T (Tag ''span'' [(''id'', Str ''s1''), (''class'', Lst [''c1''])] [NavigableString ''x'']),
         T (Tag ''span'' [(''id'', Str ''s2'')] [NavigableString ''y''])])
     [RuleSet ''.c1'' [\<lparr>decl_name = ''color'', decl_value = [''red'']\<rparr>]]
   = Inr (Tag ''body'' []
        [T (Tag ''span'' [(''id'', Str ''s1''), (''style'', Str ''color:red'')]
              [NavigableString ''x'']),
         T (Tag ''span'' [(''id'', Str ''s2'')] [NavigableString ''y''])])
   \<and> erase_attrs (Tag ''body'' []
        [T (Tag ''span'' [(''id'', Str ''s1''), (''style'', Str ''color:red'')]
              [NavigableString ''x'']),
         T (Tag ''span'' [(''id'', Str ''s2'')] [NavigableString ''y''])])
     = erase_attrs (Tag ''body'' []
        [T (Tag ''span'' [(''id'', Str ''s1''), (''class'', Lst [''c1''])] [NavigableString ''x'']),
         T (Tag ''span'' [(''id'', Str ''s2'')] [NavigableString ''y''])])"
proof -
  have h: "change_class_to_inlines
     (Tag ''body'' []
        [T (Tag ''span'' [(''id'', Str ''s1''), (''class'', Lst [''c1''])] [NavigableString ''x'']),
         T (Tag ''span'' [(''id'', Str ''s2'')] [NavigableString ''y''])])
     [RuleSet ''.c1'' [\<lparr>decl_name = ''color'', decl_value = [''red'']\<rparr>]]
   = Inr (Tag ''body'' []
        [T (Tag ''span'' [(''id'', Str ''s1''), (''style'', Str ''color:red'')]
              [NavigableString ''x'']),
         T (Tag ''span'' [(''id'', Str ''s2'')] [NavigableString ''y''])])"
    by (simp add: change_class_to_inlines_def replace_tag_with_inline_css_def tag_get_def
        strip_attr_def get_inline_style_def declaration_css_def)
  have "erase_attrs (Tag ''body'' []
        [T (Tag ''span'' [(''id'', Str ''s1''), (''style'', Str ''color:red'')]
              [NavigableString ''x'']),
         T (Tag ''span'' [(''id'', Str ''s2'')] [NavigableString ''y''])])
     = erase_attrs (Tag ''body'' []
        [T (Tag ''span'' [(''id'', Str ''s1''), (''class'', Lst [''c1''])] [NavigableString ''x'']),
         T (Tag ''span'' [(''id'', Str ''s2'')] [NavigableString ''y''])])"
    using change_class_to_inlines_spans [OF h] by (elim conjE)
  with h show ?thesis
    by (rule conjI)
qed

text \<open>
  Claim C6 as stated fails: a span with the one class \<^verbatim>\<open>c1\<close>, under a stylesheet whose
  rule for \<^verbatim>\<open>.c1\<close> has no declarations, ends with an empty \<^verbatim>\<open>style\<close> attribute.
\<close>

theorem change_class_to_inlines_empty_style_counterexample:
  "change_class_to_inlines
     (Tag ''body'' [] [T (Tag ''span'' [(''class'', Lst [''c1''])] [NavigableString ''x''])])
     [RuleSet ''.c1'' []]
   = Inr (Tag ''body'' [] [T (Tag ''span'' [(''style'', Str [])] [NavigableString ''x''])])"
  by (simp add: change_class_to_inlines_def replace_tag_with_inline_css_def tag_get_def
      strip_attr_def get_inline_style_def declaration_css_def)

section \<open>Claims on the page splitter\<close>

lemma findAll_Tag: "findAll (Tag n a cs) nm = filter (\<lambda>t. name t = nm) (nodes_tags cs)"
  by (simp add: findAll_def)

lemma findAll_contents: "findAll t nm = filter (\<lambda>t. name t = nm) (nodes_tags (contents t))"
  by (cases t) (simp add: findAll_def)

lemma extract_nodes_count:
  "filter (\<lambda>t. name t = nm) (nodes_tags ns) = h # rest \<Longrightarrow>
     length (filter (\<lambda>t. name t = nm) (nodes_tags ns)) =
       Suc (length (findAll h nm)
            + length (filter (\<lambda>t. name t = nm) (nodes_tags (extract_nodes nm ns))))"
proof (induction nm ns arbitrary: rest rule: extract_nodes.induct)
  case (1 nm)
  then show ?case by simp
next
  case (2 nm s ns)
  then show ?case by simp
next
  case (3 nm n a cs ns)
  show ?case
  proof (cases "n = nm")
    case True
    with "3.prems" have "h = Tag n a cs"
      by simp
    with True show ?thesis
      by (simp add: findAll_Tag)
  next
    case False
    show ?thesis
    proof (cases "findAll (Tag n a cs) nm")
      case Nil
      with False "3.prems" have "filter (\<lambda>t. name t = nm) (nodes_tags ns) = h # rest"
        by (simp add: findAll_Tag)
      from "3.IH"(2)[OF False _ this] Nil False show ?thesis
        by (simp add: findAll_Tag)
    next
      case (Cons h' rest')
      with False "3.prems" have h': "h' = h"
        by (simp add: findAll_Tag)
      from Cons have "filter (\<lambda>t. name t = nm) (nodes_tags cs) = h # rest'"
        by (simp add: findAll_Tag h')
      from "3.IH"(1)[OF False _ this] Cons False show ?thesis
        by (simp add: findAll_Tag)
    qed
  qed
qed

lemma extract_found_count:
  assumes "find_tag p nm = Some h"
  shows "length (findAll p nm) = Suc (length (findAll h nm) + length (findAll (extract_found p nm) nm))"
proof -
  from assms obtain rest where "findAll p nm = h # rest"
    by (auto simp: find_tag_def split: list.splits)
  then have "filter (\<lambda>t. name t = nm) (nodes_tags (contents p)) = h # rest"
    by (simp add: findAll_contents)
  from extract_nodes_count[OF this] show ?thesis
    by (simp add: findAll_contents[of p] findAll_Tag extract_found_def)
qed

lemma split_pages_None: "find_tag p ''hr'' = None \<Longrightarrow> split_pages p = [p]"
  by (subst split_pages.simps) simp

lemma split_pages_Some:
  "find_tag p ''hr'' = Some h \<Longrightarrow> split_pages p = extract_found p ''hr'' # split_pages h"
  by (subst split_pages.simps) simp

lemma find_tag_None_iff: "find_tag p nm = None \<longleftrightarrow> findAll p nm = []"
  by (simp add: find_tag_def split: list.splits)

lemma split_pages_hr_count:
  "length (split_pages p) + sum_list (map (\<lambda>q. length (findAll q ''hr'')) (split_pages p)) =
     length (findAll p ''hr'') + 1"
proof (induction p rule: split_pages.induct)
  case (1 parent)
  show ?case
  proof (cases "find_tag parent ''hr''")
    case None
    then show ?thesis
      by (simp add: split_pages_None find_tag_None_iff[symmetric])
  next
    case (Some h)
    from "1.IH"[OF Some] extract_found_count[OF Some] show ?thesis
      by (simp add: split_pages_Some[OF Some])
  qed
qed

lemma content_extract_mset:
  "filter (\<lambda>t. name t = ''hr'') (nodes_tags ns) = h # rest \<Longrightarrow>
     mset (content_nodes ns) =
       mset (content_nodes (extract_nodes ''hr'' ns)) + mset (content h)"
proof (induction "''hr''" ns arbitrary: rest rule: extract_nodes.induct)
  case 1
  then show ?case by simp
next
  case (2 s ns)
  then show ?case by simp
next
  case (3 n a cs ns)
  show ?case
  proof (cases "n = ''hr''")
    case True
    with "3.prems" have "h = Tag n a cs"
      by simp
    with True show ?thesis
      by (simp add: content_def)
  next
    case False
    show ?thesis
    proof (cases "findAll (Tag n a cs) ''hr''")
      case Nil
      with False "3.prems" have "filter (\<lambda>t. name t = ''hr'') (nodes_tags ns) = h # rest"
        by (simp add: findAll_Tag)
      from "3.hyps"(2)[OF False _ this] Nil False show ?thesis
        by (simp add: findAll_Tag)
    next
      case (Cons h' rest')
      with False "3.prems" have h': "h' = h"
        by (simp add: findAll_Tag)
      from Cons have "filter (\<lambda>t. name t = ''hr'') (nodes_tags cs) = h # rest'"
        by (simp add: findAll_Tag h')
      from "3.hyps"(1)[OF False _ this] Cons False show ?thesis
        by (simp add: findAll_Tag)
    qed
  qed
qed

lemma content_extract_embedded:
  "filter (\<lambda>t. name t = ''hr'') (nodes_tags ns) = h # rest \<Longrightarrow> hr_embedded ns \<Longrightarrow>
     content_nodes ns = content_nodes (extract_nodes ''hr'' ns) @ content h
     \<and> hr_embedded (contents h)
     \<and> filter (\<lambda>t. name t = ''hr'') (nodes_tags (extract_nodes ''hr'' ns)) = []"
proof (induction "''hr''" ns arbitrary: rest rule: extract_nodes.induct)
  case 1
  then show ?case by simp
next
  case (2 s ns)
  then show ?case by simp
next
  case (3 n a cs ns)
  show ?case
  proof (cases "n = ''hr''")
    case True
    from True "3.prems"(1) have h: "h = Tag n a cs"
      by simp
    from True "3.prems"(2) have "ns = []" "hr_embedded cs"
      by simp_all
    with True h show ?thesis
      by (simp add: content_def)
  next
    case False
    show ?thesis
    proof (cases "findAll (Tag n a cs) ''hr''")
      case Nil
      with False "3.prems" have "filter (\<lambda>t. name t = ''hr'') (nodes_tags ns) = h # rest"
        "hr_embedded ns"
        by (simp_all add: findAll_Tag)
      from "3.hyps"(2)[OF False _ this] Nil False show ?thesis
        by (simp add: findAll_Tag)
    next
      case (Cons h' rest')
      with False "3.prems" have h': "h' = h" and e: "ns = []" "hr_embedded cs"
        by (simp_all add: findAll_Tag)
      from Cons have "filter (\<lambda>t. name t = ''hr'') (nodes_tags cs) = h # rest'"
        by (simp add: findAll_Tag h')
      from "3.hyps"(1)[OF False _ this e(2)] Cons False e(1) show ?thesis
        by (simp add: findAll_Tag)
    qed
  qed
qed

lemma split_pages_content_mset:
  "mset (concat (map content (split_pages p))) = mset (content p)"
proof (induction p rule: split_pages.induct)
  case (1 parent)
  show ?case
  proof (cases "find_tag parent ''hr''")
    case None
    then show ?thesis
      by (simp add: split_pages_None)
  next
    case (Some h)
    then obtain rest where "findAll parent ''hr'' = h # rest"
      by (auto simp: find_tag_def split: list.splits)
    then have "filter (\<lambda>t. name t = ''hr'') (nodes_tags (contents parent)) = h # rest"
      by (simp add: findAll_contents)
    from content_extract_mset[OF this] "1.IH"[OF Some] show ?thesis
      by (simp add: split_pages_Some[OF Some] content_def extract_found_def)
  qed
qed

lemma split_pages_content_embedded:
  "hr_embedded (contents p) \<Longrightarrow>
     concat (map content (split_pages p)) = content p
     \<and> (\<forall>q \<in> set (split_pages p). findAll q ''hr'' = [])"
proof (induction p rule: split_pages.induct)
  case (1 parent)
  show ?case
  proof (cases "find_tag parent ''hr''")
    case None
    then show ?thesis
      by (simp add: split_pages_None find_tag_None_iff)
  next
    case (Some h)
    then obtain rest where "findAll parent ''hr'' = h # rest"
      by (auto simp: find_tag_def split: list.splits)
    then have "filter (\<lambda>t. name t = ''hr'') (nodes_tags (contents parent)) = h # rest"
      by (simp add: findAll_contents)
    from content_extract_embedded[OF this "1.prems"] have
      c: "content_nodes (contents parent) =
            content_nodes (extract_nodes ''hr'' (contents parent)) @ content h"
      and e: "hr_embedded (contents h)"
      and z: "filter (\<lambda>t. name t = ''hr'') (nodes_tags (extract_nodes ''hr'' (contents parent))) = []"
      by simp_all
    from "1.IH"[OF Some e] c z show ?thesis
      by (simp add: split_pages_Some[OF Some] content_def extract_found_def findAll_Tag)
  qed
qed

text \<open>
  Claim C2, as the code has it: for every body with \<open>k\<close> \<^verbatim>\<open>hr\<close> tags below it,
  \<^verbatim>\<open>split_pages\<close> returns a list of page roots that starts with page 0, the body
  without its first \<^verbatim>\<open>hr\<close> (the body itself when it has none). Only the first \<^verbatim>\<open>hr\<close>
  of each page is split off, and the search goes on inside it: the number of pages and the
  number of \<^verbatim>\<open>hr\<close> tags still inside the pages add up to \<open>k + 1\<close>. So there are at
  most \<open>k + 1\<close> pages, exactly \<open>k + 1\<close> when no page keeps an \<^verbatim>\<open>hr\<close>, and that is
  the case for a body whose pages are embedded in its \<^verbatim>\<open>hr\<close> tags.
\<close>

theorem split_pages_page_count:
  "split_pages body \<noteq> []
   \<and> hd (split_pages body) =
       (case find_tag body ''hr'' of None \<Rightarrow> body | Some hr \<Rightarrow> extract_found body ''hr'')
   \<and> length (split_pages body)
       + sum_list (map (\<lambda>p. length (findAll p ''hr'')) (split_pages body))
       = length (findAll body ''hr'') + 1
   \<and> (length (split_pages body) = length (findAll body ''hr'') + 1
        \<longleftrightarrow> (\<forall>p \<in> set (split_pages body). findAll p ''hr'' = []))
   \<and> (hr_embedded (contents body) \<longrightarrow>
        length (split_pages body) = length (findAll body ''hr'') + 1)"
proof -
  have first: "split_pages body \<noteq> [] \<and> hd (split_pages body) =
       (case find_tag body ''hr'' of None \<Rightarrow> body | Some hr \<Rightarrow> extract_found body ''hr'')"
    by (cases "find_tag body ''hr''") (simp_all add: split_pages_None split_pages_Some)
  have count: "length (split_pages body)
       + sum_list (map (\<lambda>p. length (findAll p ''hr'')) (split_pages body))
       = length (findAll body ''hr'') + 1"
    by (rule split_pages_hr_count)
  have zero: "sum_list (map (\<lambda>p. length (findAll p ''hr'')) ps) = 0
      \<longleftrightarrow> (\<forall>p \<in> set ps. findAll p ''hr'' = [])" for ps
    by (induction ps) auto
  have iff: "length (split_pages body) = length (findAll body ''hr'') + 1
        \<longleftrightarrow> (\<forall>p \<in> set (split_pages body). findAll p ''hr'' = [])"
    using count zero[of "split_pages body"] by linarith
  have "length (split_pages body) = length (findAll body ''hr'') + 1"
    if "hr_embedded (contents body)"
    using split_pages_content_embedded[OF that] iff by blast
  with first count iff show ?thesis
    by blast
qed

theorem split_pages_page_count_witness:
  "hr_embedded (contents (Tag ''body'' []
       [NavigableString ''a'',
        T (Tag ''hr'' [] [NavigableString ''b'', T (Tag ''hr'' [] [NavigableString ''c''])])]))
   \<and> length (findAll (Tag ''body'' []
       [NavigableString ''a'',
        T (Tag ''hr'' [] [NavigableString ''b'', T (Tag ''hr'' [] [NavigableString ''c''])])])
       ''hr'') = 2
   \<and> length (split_pages (Tag ''body'' []
       [NavigableString ''a'',
        T (Tag ''hr'' [] [NavigableString ''b'', T (Tag ''hr'' [] [NavigableString ''c''])])]))
       = 3"
  using split_pages_page_count
    [of "Tag ''body'' []
       [NavigableString ''a'',
        T (Tag ''hr'' [] [NavigableString ''b'', T (Tag ''hr'' [] [NavigableString ''c''])])]"]
  by (simp add: findAll_def)

text \<open>
  Claim C2 as stated fails: a body with three paragraphs separated by two \<^verbatim>\<open>hr\<close> tags
  that are siblings has \<open>k = 2\<close> and is split into two pages, not three. The second
  \<^verbatim>\<open>hr\<close> stays in page 0, because the search goes on inside the first \<^verbatim>\<open>hr\<close> only.
\<close>

theorem split_pages_sibling_hr_counterexample:
  "length (findAll (Tag ''body'' []
       [T (Tag ''p'' [] [NavigableString ''a'']), T (Tag ''hr'' [] []),
        T (Tag ''p'' [] [NavigableString ''b'']), T (Tag ''hr'' [] []),
        T (Tag ''p'' [] [NavigableString ''c''])]) ''hr'') = 2
   \<and> split_pages (Tag ''body'' []
       [T (Tag ''p'' [] [NavigableString ''a'']), T (Tag ''hr'' [] []),
        T (Tag ''p'' [] [NavigableString ''b'']), T (Tag ''hr'' [] []),
        T (Tag ''p'' [] [NavigableString ''c''])])
     = [Tag ''body'' []
          [T (Tag ''p'' [] [NavigableString ''a'']),
           T (Tag ''p'' [] [NavigableString ''b'']), T (Tag ''hr'' [] []),
           T (Tag ''p'' [] [NavigableString ''c''])],
        Tag ''hr'' [] []]"
  by (simp add: split_pages.simps find_tag_def findAll_def extract_found_def)

text \<open>
  Claim C3, as the code has it: for every body, the contents of the pages of
  \<^verbatim>\<open>split_pages\<close> together are the content of the body, each piece as often as in
  the body (the \<^verbatim>\<open>hr\<close> tags themselves left out on both sides); and for a body whose
  pages are embedded in its \<^verbatim>\<open>hr\<close> tags, the contents of the pages concatenated in
  page order are the content of the body in document order.
\<close>

theorem split_pages_content:
  "mset (concat (map content (split_pages body))) = mset (content body)
   \<and> (hr_embedded (contents body) \<longrightarrow>
        concat (map content (split_pages body)) = content body)"
  using split_pages_content_mset [of body] split_pages_content_embedded [of body]
  by blast

theorem split_pages_content_witness:
  "hr_embedded (contents (Tag ''body'' []
       [NavigableString ''a'',
        T (Tag ''hr'' [] [NavigableString ''b'', T (Tag ''hr'' [] [NavigableString ''c''])])]))
   \<and> concat (map content (split_pages (Tag ''body'' []
       [NavigableString ''a'',
        T (Tag ''hr'' [] [NavigableString ''b'', T (Tag ''hr'' [] [NavigableString ''c''])])])))
     = [Text ''a'', Text ''b'', Text ''c'']"
  using split_pages_content
    [of "Tag ''body'' []
       [NavigableString ''a'',
        T (Tag ''hr'' [] [NavigableString ''b'', T (Tag ''hr'' [] [NavigableString ''c''])])]"]
  by (simp add: findAll_def content_def)

text \<open>
  Claim C3 as stated fails: when something follows an \<^verbatim>\<open>hr\<close> that has content, page 0
  keeps what follows and the next page holds what was inside, so the pages in page order
  give the content in another order than the body.
\<close>

theorem split_pages_content_order_counterexample:
  "content (Tag ''body'' []
       [T (Tag ''hr'' [] [NavigableString ''a'']), NavigableString ''b''])
     = [Text ''a'', Text ''b'']
   \<and> concat (map content (split_pages (Tag ''body'' []
       [T (Tag ''hr'' [] [NavigableString ''a'']), NavigableString ''b''])))
     = [Text ''b'', Text ''a'']"
  by (simp add: split_pages.simps find_tag_def findAll_def extract_found_def content_def)

section \<open>Claims on merging\<close>

lemmas linked_defs =
  combine_tags_once_def combine_tags_twice_def parsed_def object_was_parsed_def new_element_def
  BeautifulSoup_br_def last_descendant_def extract_el_def clear_tag_def descendants_of_def
  find_all_def find_children_def del_at_def Let_def

lemmas linked_simps =
  combine_tags.simps children_loop.simps walk.simps last_leaf.simps node_of.simps

lemmas linked_congs =
  option.case_cong_weak sum.case_cong_weak list.case_cong_weak let_weak_cong

text \<open>
  Two headings that hold tags are merged as the comment of the function says: the
  children of the second follow those of the first, after the \<^verbatim>\<open>br\<close> document, and
  the emptied second heading is extracted. A second call leaves that tree as it is.
\<close>

lemma combine_tags_merges_spans:
  "combine_tags_once (10 + k)
     (Tag ''body'' []
        [T (Tag ''h6'' [] [T (Tag ''span'' [] [NavigableString ''Herp''])]),
         T (Tag ''h6'' [] [T (Tag ''span'' [] [NavigableString ''Derp''])])]) 0 ''h6''
     = Inr (T (Tag ''body'' []
          [T (Tag ''h6'' []
             [T (Tag ''span'' [] [NavigableString ''Herp'']),
              T (Tag ''[document]'' [] [T (Tag ''br'' [] [])]),
              T (Tag ''span'' [] [NavigableString ''Derp''])])]))"
  by (simp add: linked_defs linked_simps cong: linked_congs)

lemma combine_tags_twice_spans:
  "combine_tags_twice (10 + k)
     (Tag ''body'' []
        [T (Tag ''h6'' [] [T (Tag ''span'' [] [NavigableString ''Herp''])]),
         T (Tag ''h6'' [] [T (Tag ''span'' [] [NavigableString ''Derp''])])]) 0 ''h6''
     = Inr (T (Tag ''body'' []
          [T (Tag ''h6'' []
             [T (Tag ''span'' [] [NavigableString ''Herp'']),
              T (Tag ''[document]'' [] [T (Tag ''br'' [] [])]),
              T (Tag ''span'' [] [NavigableString ''Derp''])])]))"
  by (simp add: linked_defs linked_simps cong: linked_congs)

text \<open>
  Claim C8, at a body whose only child is an \<^verbatim>\<open>h6\<close> holding a string:
  \<^verbatim>\<open>findChildren()\<close> returns tags only, so the \<^verbatim>\<open>h6\<close> counts as empty and
  \<^verbatim>\<open>combine_tags\<close> extracts it, string and all. The body is left empty, with any
  fuel from 10 on.
\<close>

theorem combine_tags_text_only_removed:
  "combine_tags_once (10 + k)
     (Tag ''body'' [] [T (Tag ''h6'' [] [NavigableString ''Title''])]) 0 ''h6''
     = Inr (T (Tag ''body'' [] []))"
  by (simp add: linked_defs linked_simps cong: linked_congs)

text \<open>
  Claim C9, at the document
  \<^verbatim>\<open><html><body><p>t</p><h6>Herp</h6><h6>Derp</h6></body>\<close> followed by a line end and
  \<^verbatim>\<open></html>\<close>, with \<^verbatim>\<open>combine_tags\<close> called on the body (object 1) for \<^verbatim>\<open>h6\<close>.
  The first call returns and leaves \<^verbatim>\<open><body><p>t</p></body>\<close>: both headings are
  extracted, since neither has a tag below it. The second call does not return that
  tree: it raises \<^verbatim>\<open>AttributeError\<close> in \<^verbatim>\<open>findAll\<close>. The strings that the first call
  wrote into the \<^verbatim>\<open>contents\<close> of the first heading kept their old links, so the
  line end after the body still has the string \<^verbatim>\<open>Herp\<close> as its
  \<^verbatim>\<open>previous_element\<close>; \<^verbatim>\<open>descendants\<close> of the body then waits for that line end,
  while the chain from the first child of the body ends in \<^verbatim>\<open>None\<close> after \<^verbatim>\<open>t\<close>.
  Both results hold with any fuel from 10 on.
\<close>

theorem combine_tags_second_pass_raises:
  "combine_tags_once (10 + k)
     (Tag ''html'' []
        [T (Tag ''body'' []
              [T (Tag ''p'' [] [NavigableString ''t'']),
               T (Tag ''h6'' [] [NavigableString ''Herp'']),
               T (Tag ''h6'' [] [NavigableString ''Derp''])]),
         NavigableString ''\<newline>'']) 1 ''h6''
     = Inr (T (Tag ''body'' [] [T (Tag ''p'' [] [NavigableString ''t''])])) \<and>
   combine_tags_twice (10 + k)
     (Tag ''html'' []
        [T (Tag ''body'' []
              [T (Tag ''p'' [] [NavigableString ''t'']),
               T (Tag ''h6'' [] [NavigableString ''Herp'']),
               T (Tag ''h6'' [] [NavigableString ''Derp''])]),
         NavigableString ''\<newline>'']) 1 ''h6''
     = Inl AttributeError"
  by (simp add: linked_defs linked_simps cong: linked_congs)

text \<open>
  Claim C10, at the body \<^verbatim>\<open><h6 class="c1">Herp</h6><h6 class="c1">Derp</h6>\<close>:
  \<^verbatim>\<open>h6\<close> is in the list \<^verbatim>\<open>basics\<close>, so \<^verbatim>\<open>strip_class_from_basics\<close> removes the
  class of both headings; \<^verbatim>\<open>combine_tags\<close> for \<^verbatim>\<open>h6\<close> then leaves the body empty,
  not a single \<^verbatim>\<open><h6>Herp<br/>Derp</h6>\<close>: the second heading is cleared and
  extracted, and the first, which now holds two strings and the \<^verbatim>\<open>br\<close> document in
  its \<^verbatim>\<open>contents\<close>, is extracted as well, because \<^verbatim>\<open>findChildren()\<close> walks the links
  from its first string and finds no tag there.
\<close>

theorem strip_then_combine_h6:
  "''h6'' \<in> set basics \<and>
   strip_class_from_basics
     (Tag ''body'' []
        [T (Tag ''h6'' [(''class'', Lst [''c1''])] [NavigableString ''Herp'']),
         T (Tag ''h6'' [(''class'', Lst [''c1''])] [NavigableString ''Derp''])])
     = Tag ''body'' []
         [T (Tag ''h6'' [] [NavigableString ''Herp'']),
          T (Tag ''h6'' [] [NavigableString ''Derp''])] \<and>
   combine_tags_once (10 + k)
     (strip_class_from_basics
        (Tag ''body'' []
           [T (Tag ''h6'' [(''class'', Lst [''c1''])] [NavigableString ''Herp'']),
            T (Tag ''h6'' [(''class'', Lst [''c1''])] [NavigableString ''Derp''])])) 0 ''h6''
     = Inr (T (Tag ''body'' [] []))"
proof -
  have s: "strip_class_from_basics
     (Tag ''body'' []
        [T (Tag ''h6'' [(''class'', Lst [''c1''])] [NavigableString ''Herp'']),
         T (Tag ''h6'' [(''class'', Lst [''c1''])] [NavigableString ''Derp''])])
     = Tag ''body'' []
         [T (Tag ''h6'' [] [NavigableString ''Herp'']),
          T (Tag ''h6'' [] [NavigableString ''Derp''])]"
    by (simp add: strip_class_from_basics_def basics_def strip_attr_def)
  have b: "''h6'' \<in> set basics"
    by (simp add: basics_def)
  have c: "combine_tags_once (10 + k)
     (Tag ''body'' []
         [T (Tag ''h6'' [] [NavigableString ''Herp'']),
          T (Tag ''h6'' [] [NavigableString ''Derp''])]) 0 ''h6''
     = Inr (T (Tag ''body'' [] []))"
    by (simp add: linked_defs linked_simps cong: linked_congs)
  show ?thesis
    unfolding s using b c by simp
qed

end
